theory Spec2Isabelle
  imports Main "HOL-Library.Word"
begin

section \<open>The formatter of format.hpp\<close>

text \<open>
  The development models \<^verbatim>\<open>iso::format::Format\<close> of \<^verbatim>\<open>src/format.hpp\<close>: the
  compile-time scanner \<^verbatim>\<open>SpecifierTable\<close>, the per-specifier \<^verbatim>\<open>SpecCheck\<close>
  templates (\<^verbatim>\<open>valid\<close>, \<^verbatim>\<open>length\<close>, \<^verbatim>\<open>formatArg\<close>), the length planner
  \<^verbatim>\<open>CheckSpecsTypes\<close> and the three \<^verbatim>\<open>printf\<close> overloads.

  A char array is a \<open>string\<close> (a list of 8-bit \<open>char\<close>s). A compile-time string
  \<^verbatim>\<open>S::string\<close> is the array with its terminating NUL, so \<^verbatim>\<open>sizeof(S::string)\<close> is its
  \<open>length\<close>. A template parameter \<^verbatim>\<open>Type\<close> is seen through \<^verbatim>\<open>sizeof(Type)\<close> and the
  value of the argument. What the C++ build refuses (a failed \<^verbatim>\<open>static_assert\<close>, a
  function that is declared and never defined) and what is undefined behaviour at run
  time are values of the type \<open>error\<close>.
\<close>

subsection \<open>Platform, specifiers, arguments, errors\<close>

text \<open>What the target fixes and format.hpp reads through \<^verbatim>\<open>sizeof\<close> and the type traits.\<close>

record platform =
  sizeof_pointer :: nat
  sizeof_size_t :: nat
  sizeof_int :: nat
  char_is_signed :: bool

text \<open>\<^verbatim>\<open>enum Specifier : char\<close>, lines 175-186.\<close>

datatype Specifier =
  Unknown
  | SignedDecimalInteger
  | UnsignedDecimalInteger
  | UnsignedHexadecimalInteger
  | Character
  | StringOfCharacters
  | PointerAddress
  | Time
  | Boolean

text \<open>The enumerator values: 0 for \<open>Unknown\<close>, the kind character for the others.\<close>

fun specifier_char :: "Specifier \<Rightarrow> char" where
  "specifier_char Unknown = CHR 0x00"
| "specifier_char SignedDecimalInteger = CHR ''d''"
| "specifier_char UnsignedDecimalInteger = CHR ''u''"
| "specifier_char UnsignedHexadecimalInteger = CHR ''X''"
| "specifier_char Character = CHR ''c''"
| "specifier_char StringOfCharacters = CHR ''s''"
| "specifier_char PointerAddress = CHR ''p''"
| "specifier_char Time = CHR ''t''"
| "specifier_char Boolean = CHR ''b''"

text \<open>\<^verbatim>\<open>static constexpr Specifier specifiers[]\<close>, lines 189-196.\<close>

definition specifiers :: "Specifier list" where
  "specifiers = [SignedDecimalInteger, UnsignedDecimalInteger, UnsignedHexadecimalInteger,
     Character, StringOfCharacters, PointerAddress, Time, Boolean]"

text \<open>
  The arguments of a call: a value together with its C++ type. The fixed-width signed and
  unsigned integral types, \<^verbatim>\<open>char\<close>, \<^verbatim>\<open>bool\<close>, a pointer (its address) and a
  \<^verbatim>\<open>wrappers::String\<close> (its array, terminator included).
\<close>

datatype arg =
  I8 "8 word" | I16 "16 word" | I32 "32 word" | I64 "64 word"
  | U8 "8 word" | U16 "16 word" | U32 "32 word" | U64 "64 word"
  | CharA char
  | BoolA bool
  | PtrA nat
  | StrA string

datatype error =
  ArityMismatch \<comment> \<open>static_assert, line 480\<close>
  | WidthNotAllowed \<comment> \<open>static_assert, line 493\<close>
  | InvalidType Specifier \<comment> \<open>static_assert(valid) of a SpecCheck specialisation\<close>
  | NoDefinition \<comment> \<open>the primary template's formatArg is declared, line 292, and never defined\<close>
  | NotConstant \<comment> \<open>an array index out of range while a consteval function is evaluated\<close>
  | NoMatchingFunction \<comment> \<open>a call with an empty pack of a template that needs a first argument\<close>
  | SignedOverflow \<comment> \<open>undefined behaviour: negation of the least value of a signed type\<close>
  | LiteralOverrun \<comment> \<open>undefined behaviour: a read past the end of S::string\<close>
  | DataOverrun \<comment> \<open>undefined behaviour: a read past the end of the dumped data\<close>
  | BufferOverrun \<comment> \<open>undefined behaviour: a store past the end of the stack buffer\<close>

fun sizeof :: "platform \<Rightarrow> arg \<Rightarrow> nat" where
  "sizeof P (I8 _) = 1"
| "sizeof P (I16 _) = 2"
| "sizeof P (I32 _) = 4"
| "sizeof P (I64 _) = 8"
| "sizeof P (U8 _) = 1"
| "sizeof P (U16 _) = 2"
| "sizeof P (U32 _) = 4"
| "sizeof P (U64 _) = 8"
| "sizeof P (CharA _) = 1"
| "sizeof P (BoolA _) = 1"
| "sizeof P (PtrA _) = sizeof_pointer P"
| "sizeof P (StrA _) = 1"

text \<open>The type traits of \<^verbatim>\<open><type_traits>\<close> on these types.\<close>

fun is_integral :: "arg \<Rightarrow> bool" where
  "is_integral (PtrA _) = False"
| "is_integral (StrA _) = False"
| "is_integral _ = True"

fun is_signed :: "platform \<Rightarrow> arg \<Rightarrow> bool" where
  "is_signed P (I8 _) = True"
| "is_signed P (I16 _) = True"
| "is_signed P (I32 _) = True"
| "is_signed P (I64 _) = True"
| "is_signed P (CharA _) = char_is_signed P"
| "is_signed P _ = False"

fun is_unsigned :: "platform \<Rightarrow> arg \<Rightarrow> bool" where
  "is_unsigned P (U8 _) = True"
| "is_unsigned P (U16 _) = True"
| "is_unsigned P (U32 _) = True"
| "is_unsigned P (U64 _) = True"
| "is_unsigned P (BoolA _) = True"
| "is_unsigned P (CharA _) = (\<not> char_is_signed P)"
| "is_unsigned P _ = False"

fun is_same_char :: "arg \<Rightarrow> bool" where
  "is_same_char (CharA _) = True"
| "is_same_char _ = False"

fun is_pointer :: "arg \<Rightarrow> bool" where
  "is_pointer (PtrA _) = True"
| "is_pointer _ = False"

fun is_string :: "arg \<Rightarrow> bool" where
  "is_string (StrA _) = True"
| "is_string _ = False"

fun is_convertible_bool :: "arg \<Rightarrow> bool" where
  "is_convertible_bool (StrA _) = False"
| "is_convertible_bool _ = True"

text \<open>The value of a \<^verbatim>\<open>char\<close> after integral promotion.\<close>

definition char_value :: "platform \<Rightarrow> char \<Rightarrow> int" where
  "char_value P c = (if char_is_signed P then sint (of_char c :: 8 word) else of_char c)"

text \<open>The value of an argument of integral type.\<close>

fun int_value :: "platform \<Rightarrow> arg \<Rightarrow> int" where
  "int_value P (I8 w) = sint w"
| "int_value P (I16 w) = sint w"
| "int_value P (I32 w) = sint w"
| "int_value P (I64 w) = sint w"
| "int_value P (U8 w) = uint w"
| "int_value P (U16 w) = uint w"
| "int_value P (U32 w) = uint w"
| "int_value P (U64 w) = uint w"
| "int_value P (CharA c) = char_value P c"
| "int_value P (BoolA b) = (if b then 1 else 0)"
| "int_value P (PtrA a) = int a"
| "int_value P (StrA s) = 0"

text \<open>The contextual conversion to \<^verbatim>\<open>bool\<close>, \<^verbatim>\<open>(arg) ? 1 : 0\<close>.\<close>

fun truth :: "platform \<Rightarrow> arg \<Rightarrow> bool" where
  "truth P (BoolA b) = b"
| "truth P (PtrA a) = (a mod 2 ^ (8 * sizeof_pointer P) \<noteq> 0)"
| "truth P (StrA s) = False"
| "truth P a = (int_value P a \<noteq> 0)"

subsection \<open>SpecCheck: valid and length\<close>

text \<open>\<^verbatim>\<open>SpecCheck<sp, Type>::valid\<close>, lines 282, 297, 331, 360, 376, 387, 400, 417, 430.\<close>

fun valid :: "platform \<Rightarrow> Specifier \<Rightarrow> arg \<Rightarrow> bool" where
  "valid P Unknown a = False"
| "valid P SignedDecimalInteger a = (is_signed P a \<and> is_integral a)"
| "valid P UnsignedDecimalInteger a = (is_unsigned P a \<and> is_integral a)"
| "valid P UnsignedHexadecimalInteger a = (is_unsigned P a \<and> is_integral a)"
| "valid P Character a = is_same_char a"
| "valid P StringOfCharacters a = is_string a"
| "valid P PointerAddress a = is_pointer a"
| "valid P Time a = (is_unsigned P a \<and> is_integral a \<and> sizeof P a \<ge> sizeof_size_t P)"
| "valid P Boolean a = is_convertible_bool a"

text \<open>
  \<^verbatim>\<open>SpecCheck<sp, Type>::length\<close>, lines 283, 298, 332, 361, 377, 388, 401, 418, 431.
  \<^verbatim>\<open>sizeof("FALSE")\<close> is 6: the array of the literal holds its terminator.
\<close>

definition sizeof_FALSE :: nat where
  "sizeof_FALSE = length (''FALSE'' @ [CHR 0x00])"

definition sizeof_TRUE :: nat where
  "sizeof_TRUE = length (''TRUE'' @ [CHR 0x00])"

fun SpecCheck_length :: "platform \<Rightarrow> Specifier \<Rightarrow> arg \<Rightarrow> nat" where
  "SpecCheck_length P Unknown a = 0"
| "SpecCheck_length P SignedDecimalInteger a = (3 * sizeof P a) - (sizeof P a div 2) + 1"
| "SpecCheck_length P UnsignedDecimalInteger a = (3 * sizeof P a) - (sizeof P a div 2)"
| "SpecCheck_length P UnsignedHexadecimalInteger a = 2 * sizeof P a + 2"
| "SpecCheck_length P Character a = 1"
| "SpecCheck_length P StringOfCharacters a = (case a of StrA s \<Rightarrow> length s - 1 | _ \<Rightarrow> 0)"
| "SpecCheck_length P PointerAddress a = 2 * sizeof_pointer P + 2"
| "SpecCheck_length P Time a = (3 * sizeof P a) - (sizeof P a div 2) + 4"
| "SpecCheck_length P Boolean a = sizeof_FALSE"

subsection \<open>SpecCheck: formatArg\<close>

text \<open>
  A routine stores to \<^verbatim>\<open>buffer[0]\<close>, ..., \<^verbatim>\<open>buffer[num - 1]\<close> and returns \<^verbatim>\<open>num\<close>. The
  model returns the stored bytes in the order of their offsets; its length is \<^verbatim>\<open>num\<close>.
\<close>

text \<open>
  Lines 336-339 (and 303-306): \<^verbatim>\<open>do { buffer[num++] = arg % 10 + '0'; } while (arg /= 10);\<close>
\<close>

function digit_loop :: "nat \<Rightarrow> string \<Rightarrow> string" where
  "digit_loop arg buffer =
     (let buffer' = buffer @ [char_of (arg mod 10 + 48)] in
      if arg div 10 \<noteq> 0 then digit_loop (arg div 10) buffer' else buffer')"
  by pat_completeness auto
termination
  by (relation "measure (\<lambda>(arg, buffer). arg)") auto

declare digit_loop.simps [simp del]

text \<open>Lines 341-345: \<^verbatim>\<open>if constexpr (W::width) while (num < W::width) buffer[num++] = '0';\<close>\<close>

function pad_loop :: "nat \<Rightarrow> string \<Rightarrow> string" where
  "pad_loop width buffer =
     (if length buffer < width then pad_loop width (buffer @ [CHR ''0'']) else buffer)"
  by pat_completeness auto
termination
  by (relation "measure (\<lambda>(width, buffer). width - length buffer)") auto

declare pad_loop.simps [simp del]

text \<open>Lines 347-352: the in-place reversal, \<^verbatim>\<open>for (i = 0; i < num / 2; i++)\<close> swap.\<close>

function swap_loop :: "nat \<Rightarrow> string \<Rightarrow> string" where
  "swap_loop i buffer =
     (let num = length buffer in
      if i < num div 2
      then swap_loop (i + 1)
             ((buffer[i := buffer ! (num - i - 1)])[num - i - 1 := buffer ! i])
      else buffer)"
  by pat_completeness auto
termination
  by (relation "measure (\<lambda>(i, buffer). length buffer div 2 - i)") auto

declare swap_loop.simps [simp del]

text \<open>\<^verbatim>\<open>SpecCheck<UnsignedDecimalInteger, Type>::formatArg\<close>, lines 334-355.\<close>

definition formatArg_unsigned :: "nat \<Rightarrow> 32 word \<Rightarrow> string" where
  "formatArg_unsigned arg width =
     (let buffer = digit_loop arg [];
          buffer = (if width \<noteq> 0 then pad_loop (unat width) buffer else buffer)
      in swap_loop 0 buffer)"

text \<open>
  \<^verbatim>\<open>SpecCheck<SignedDecimalInteger, Type>::formatArg\<close>, lines 300-326. \<^verbatim>\<open>-arg\<close> has the
  promoted type of \<^verbatim>\<open>Type\<close>; for the least value of a type that is not narrower than
  \<^verbatim>\<open>int\<close> the negation overflows.
\<close>

definition formatArg_signed :: "platform \<Rightarrow> nat \<Rightarrow> int \<Rightarrow> 32 word \<Rightarrow> error + string" where
  "formatArg_signed P size_of arg width =
     (if arg < 0 \<and> sizeof_int P \<le> size_of \<and> - arg = 2 ^ (8 * size_of - 1)
      then Inl SignedOverflow
      else
        let uArg = nat (if arg < 0 then - arg else arg);
            buffer = digit_loop uArg [];
            buffer = (if width \<noteq> 0 then pad_loop (unat width) buffer else buffer);
            buffer = (if arg < 0 then buffer @ [CHR ''-''] else buffer)
        in Inr (swap_loop 0 buffer))"

text \<open>Lines 368 and 409: \<^verbatim>\<open>(val < 0xA) ? val + '0' : val + ('A' - 0xA)\<close>.\<close>

definition hex_char :: "nat \<Rightarrow> char" where
  "hex_char val = (if val < 10 then char_of (val + 48) else char_of (val + (65 - 10)))"

text \<open>
  Lines 366-369 and 407-410: \<^verbatim>\<open>for (i = 2; i < length; i++)\<close>, each round storing the
  nibble \<^verbatim>\<open>(arg >> (bits - (i - 1) * 4)) & 0xF\<close> to \<^verbatim>\<open>buffer[i]\<close>.
\<close>

function hex_loop :: "nat \<Rightarrow> nat \<Rightarrow> nat \<Rightarrow> nat \<Rightarrow> string" where
  "hex_loop i len bits arg =
     (if i < len
      then hex_char ((arg div 2 ^ (bits - (i - 1) * 4)) mod 16) # hex_loop (i + 1) len bits arg
      else [])"
  by pat_completeness auto
termination
  by (relation "measure (\<lambda>(i, len, bits, arg). len - i)") auto

declare hex_loop.simps [simp del]

text \<open>\<^verbatim>\<open>SpecCheck<UnsignedHexadecimalInteger, Type>::formatArg\<close>, lines 363-371.\<close>

definition formatArg_hex :: "nat \<Rightarrow> nat \<Rightarrow> string" where
  "formatArg_hex size_of arg =
     [CHR ''0'', CHR ''x''] @ hex_loop 2 (2 * size_of + 2) (8 * size_of) arg"

text \<open>
  \<^verbatim>\<open>SpecCheck<PointerAddress, Type>::formatArg\<close>, lines 403-412; the address is cast to
  \<^verbatim>\<open>size_t\<close> first.
\<close>

definition formatArg_pointer :: "platform \<Rightarrow> nat \<Rightarrow> string" where
  "formatArg_pointer P address =
     (let uArg = address mod 2 ^ (8 * sizeof_size_t P) in
      [CHR ''0'', CHR ''x''] @
        hex_loop 2 (2 * sizeof_pointer P + 2) (8 * sizeof_pointer P) uArg)"

text \<open>\<^verbatim>\<open>SpecCheck<Character, Type>::formatArg\<close>, lines 379-382.\<close>

definition formatArg_char :: "char \<Rightarrow> string" where
  "formatArg_char arg = [arg]"

text \<open>
  \<^verbatim>\<open>SpecCheck<StringOfCharacters, Type>::formatArg\<close>, lines 390-395: the first
  \<^verbatim>\<open>sizeof(Type::string) - 1\<close> bytes of the array.
\<close>

definition formatArg_string :: "string \<Rightarrow> string" where
  "formatArg_string str = map (\<lambda>i. str ! i) [0 ..< length str - 1]"

text \<open>\<^verbatim>\<open>SpecCheck<Boolean, Type>::formatArg\<close>, lines 433-441.\<close>

definition formatArg_bool :: "bool \<Rightarrow> string" where
  "formatArg_bool cond =
     (let len = (if cond then sizeof_TRUE else sizeof_FALSE) - 1;
          val = (if cond then ''TRUE'' @ [CHR 0x00] else ''FALSE'' @ [CHR 0x00])
      in map (\<lambda>i. val ! i) [0 ..< len])"

text \<open>
  \<^verbatim>\<open>SpecCheck<Time, Type>::formatArg\<close>, lines 420-425: the unsigned routine on
  \<^verbatim>\<open>arg / 1000\<close> with \<^verbatim>\<open>Width<0U>\<close>, the byte \<^verbatim>\<open>'.'\<close>, the unsigned routine on
  \<^verbatim>\<open>arg % 1000\<close> with \<^verbatim>\<open>Width<3U>\<close>.
\<close>

definition formatArg_time :: "nat \<Rightarrow> string" where
  "formatArg_time arg =
     (let buffer = formatArg_unsigned (arg div 1000) 0;
          buffer = buffer @ [CHR ''.'']
      in buffer @ formatArg_unsigned (arg mod 1000) 3)"

text \<open>
  The call \<^verbatim>\<open>SpecCheck<sp, First>::formatArg(..., first, Width<width>{})\<close> of line 511.
  Instantiating a specialisation with a type that is not \<open>valid\<close> fails its
  \<^verbatim>\<open>static_assert\<close>; the primary template (\<open>Unknown\<close>) has no body for formatArg.
\<close>

definition formatArg :: "platform \<Rightarrow> Specifier \<Rightarrow> arg \<Rightarrow> 32 word \<Rightarrow> error + string" where
  "formatArg P sp a width =
     (case sp of
        Unknown \<Rightarrow> Inl NoDefinition
      | _ \<Rightarrow>
        if \<not> valid P sp a then Inl (InvalidType sp)
        else (case sp of
          Unknown \<Rightarrow> Inl NoDefinition
        | SignedDecimalInteger \<Rightarrow> formatArg_signed P (sizeof P a) (int_value P a) width
        | UnsignedDecimalInteger \<Rightarrow> Inr (formatArg_unsigned (nat (int_value P a)) width)
        | UnsignedHexadecimalInteger \<Rightarrow> Inr (formatArg_hex (sizeof P a) (nat (int_value P a)))
        | Character \<Rightarrow> (case a of CharA c \<Rightarrow> Inr (formatArg_char c) | _ \<Rightarrow> Inl (InvalidType sp))
        | StringOfCharacters \<Rightarrow>
            (case a of StrA s \<Rightarrow> Inr (formatArg_string s) | _ \<Rightarrow> Inl (InvalidType sp))
        | PointerAddress \<Rightarrow>
            (case a of PtrA p \<Rightarrow> Inr (formatArg_pointer P p) | _ \<Rightarrow> Inl (InvalidType sp))
        | Time \<Rightarrow> Inr (formatArg_time (nat (int_value P a)))
        | Boolean \<Rightarrow> Inr (formatArg_bool (truth P a))))"

subsection \<open>The specifier scanner\<close>

text \<open>
  \<^verbatim>\<open>string<"...">\<close>: the array of a string literal, the text and its terminating NUL.
\<close>

definition string_lit :: "string \<Rightarrow> string" where
  "string_lit text = text @ [CHR 0x00]"

text \<open>
  \<^verbatim>\<open>struct SpecifierData\<close>, lines 201-208. \<^verbatim>\<open>width\<close> is an \<^verbatim>\<open>unsigned\<close>, taken as
  32 bits wide; the field \<^verbatim>\<open>size\<close> is \<open>size'\<close> here. The constructor zeroes the fields.
\<close>

record SpecifierData =
  specifier :: Specifier
  width :: "32 word"
  position :: nat
  size' :: nat

definition SpecifierData_init :: SpecifierData where
  "SpecifierData_init = \<lparr>specifier = Unknown, width = 0, position = 0, size' = 0\<rparr>"

text \<open>The lambda \<^verbatim>\<open>IsDigit\<close>, line 222.\<close>

definition IsDigit :: "char \<Rightarrow> bool" where
  "IsDigit symbol = ((48::nat) \<le> of_char symbol \<and> of_char symbol \<le> (57::nat))"

text \<open>
  Lines 231-235, \<^verbatim>\<open>while (IsDigit(S::string[++i])) { ... }\<close>: entered with the index
  already incremented; the result is the index of the first byte that is no digit, and
  the width. The arithmetic on \<^verbatim>\<open>width\<close> wraps.
\<close>

function width_loop :: "string \<Rightarrow> nat \<Rightarrow> 32 word \<Rightarrow> (nat \<times> 32 word) option" where
  "width_loop s i w =
     (if i < length s
      then (if IsDigit (s ! i)
            then (if s ! i = CHR ''0'' \<and> w = 0
                  then width_loop s (i + 1) w
                  else width_loop s (i + 1) (10 * w + of_nat (of_char (s ! i) - 48)))
            else Some (i, w))
      else None)"
  by pat_completeness auto
termination
  by (relation "measure (\<lambda>(s, i, w). length s - i)") auto

declare width_loop.simps [simp del]

text \<open>Lines 236-241: the last entry of \<^verbatim>\<open>specifiers\<close> equal to the byte, else \<open>Unknown\<close>.\<close>

definition match_specifier :: "char \<Rightarrow> Specifier" where
  "match_specifier specInString =
     fold (\<lambda>s specifier. if specifier_char s = specInString then s else specifier)
       specifiers Unknown"

text \<open>
  The constructor of \<^verbatim>\<open>SpecifierTable\<close>, lines 221-249: the loop over the bytes of
  \<^verbatim>\<open>S::string\<close>, with the index \<^verbatim>\<open>i\<close>, the next free entry \<^verbatim>\<open>pos\<close> and the array
  \<^verbatim>\<open>data\<close>.
\<close>

function scan_loop ::
  "string \<Rightarrow> nat \<Rightarrow> nat \<Rightarrow> SpecifierData list \<Rightarrow> SpecifierData list option" where
  "scan_loop s i pos data =
     (if i < length s
      then (if s ! i = CHR ''%''
            then (case width_loop s (i + 1) 0 of
                    None \<Rightarrow> None
                  | Some (j, w) \<Rightarrow>
                      if pos < length data
                      then scan_loop s (j + 1) (pos + 1)
                             (data[pos := \<lparr>specifier = match_specifier (s ! j), width = w,
                                            position = i, size' = j - i + 1\<rparr>])
                      else None)
            else scan_loop s (i + 1) pos data)
      else Some data)"
  by pat_completeness auto
termination
proof -
  have bound: "width_loop s i w = Some (j, w') \<Longrightarrow> i \<le> j" for s i w j w'
  proof (induction s i w rule: width_loop.induct)
    case (1 s i w)
    from "1.prems" show ?case
      by (subst (asm) width_loop.simps) (auto split: if_splits dest: "1.IH"(1) "1.IH"(2))
  qed
  show ?thesis
  proof (relation "measure (\<lambda>(s, i, pos, data). length s - i)")
    show "wf (measure (\<lambda>(s, i, pos, data). length s - i))" by simp
  next
    fix s :: string and i pos :: nat and data :: "SpecifierData list"
      and x2 :: "nat \<times> 32 word" and j :: nat and w :: "32 word"
    assume "i < length s" and "width_loop s (i + 1) 0 = Some x2" and "(j, w) = x2"
    then have "i + 1 \<le> j" using bound[of s "i + 1" 0 j w] by simp
    with \<open>i < length s\<close>
    show "((s, j + 1, pos + 1,
            data[pos := \<lparr>specifier = match_specifier (s ! j), width = w, position = i,
                          size' = j - i + 1\<rparr>]), s, i, pos, data)
          \<in> measure (\<lambda>(s, i, pos, data). length s - i)"
      by simp
  next
    fix s :: string and i pos :: nat and data :: "SpecifierData list"
    assume "i < length s"
    then show "((s, i + 1, pos, data), s, i, pos, data)
          \<in> measure (\<lambda>(s, i, pos, data). length s - i)"
      by simp
  qed
qed

declare scan_loop.simps [simp del]

text \<open>\<^verbatim>\<open>SpecifierTable<N>(str)\<close>: \<^verbatim>\<open>data[N]\<close> starts as \<open>N\<close> zeroed entries.\<close>

definition SpecifierTable :: "string \<Rightarrow> nat \<Rightarrow> SpecifierData list option" where
  "SpecifierTable s N = scan_loop s 0 0 (replicate N SpecifierData_init)"

text \<open>\<^verbatim>\<open>SpecifierQuantity\<close>, lines 260-268.\<close>

definition SpecifierQuantity :: "string \<Rightarrow> nat" where
  "SpecifierQuantity s = fold (\<lambda>c quantity. if c = CHR ''%'' then quantity + 1 else quantity) s 0"

text \<open>The lambda \<^verbatim>\<open>checkWidth\<close>, lines 485-492.\<close>

fun checkWidth :: "SpecifierData list \<Rightarrow> bool" where
  "checkWidth [] = True"
| "checkWidth (d # ds) =
     (if (specifier d \<noteq> SignedDecimalInteger \<and> specifier d \<noteq> UnsignedDecimalInteger)
         \<and> width d \<noteq> 0
      then False else checkWidth ds)"

subsection \<open>The length planner and the three printf overloads\<close>

text \<open>
  \<^verbatim>\<open>CheckSpecsTypes\<close>, lines 445-451. Naming \<^verbatim>\<open>SpecCheck<specifier, First>::length\<close>
  instantiates the class, whose \<^verbatim>\<open>static_assert(valid)\<close> refuses a type that does not fit
  (the primary template has none). The function needs a first argument.
\<close>

fun CheckSpecsTypes :: "platform \<Rightarrow> SpecifierData list \<Rightarrow> arg list \<Rightarrow> error + nat" where
  "CheckSpecsTypes P table [] = Inl NoMatchingFunction"
| "CheckSpecsTypes P table (first # rest) =
     (if length table < length rest + 1 then Inl NotConstant
      else
        let tableIndex = length table - (length rest + 1);
            sp = specifier (table ! tableIndex)
        in if sp \<noteq> Unknown \<and> \<not> valid P sp first then Inl (InvalidType sp)
           else if rest \<noteq> []
           then (case CheckSpecsTypes P table rest of
                   Inl e \<Rightarrow> Inl e
                 | Inr n \<Rightarrow> Inr (n + SpecCheck_length P sp first))
           else Inr (SpecCheck_length P sp first))"

text \<open>
  What the compiler and the linker decide for \<^verbatim>\<open>printf(str, args...)\<close> with at least
  one argument, lines 479-499: the two \<^verbatim>\<open>static_assert\<close>s, the table, the types, and
  that every \<^verbatim>\<open>formatArg\<close> the body calls has a definition. The result is the table
  and \<^verbatim>\<open>length\<close>, the size of the stack buffer.
\<close>

definition build :: "platform \<Rightarrow> string \<Rightarrow> arg list \<Rightarrow> error + (SpecifierData list \<times> nat)" where
  "build P s args =
     (let specifiersQuantity = SpecifierQuantity s in
      if length args \<noteq> specifiersQuantity then Inl ArityMismatch
      else (case SpecifierTable s specifiersQuantity of
              None \<Rightarrow> Inl NotConstant
            | Some table \<Rightarrow>
                if \<not> checkWidth table then Inl WidthNotAllowed
                else (case CheckSpecsTypes P table args of
                        Inl e \<Rightarrow> Inl e
                      | Inr n \<Rightarrow>
                          if Unknown \<in> set (map specifier table) then Inl NoDefinition
                          else Inr (table, n + length s))))"

text \<open>
  Lines 506-508 and 517-519: \<^verbatim>\<open>while (counterSource < limit)
  buffer[counterResult++] = S::string[counterSource++];\<close> on the state
  \<open>(counterSource, counterResult, buffer)\<close>. \<open>buffer\<close> holds the bytes stored so far, in
  the order of their offsets: every store of \<^verbatim>\<open>printf\<close> goes to the next offset.
\<close>

function copy_loop :: "string \<Rightarrow> nat \<Rightarrow> nat \<times> nat \<times> string \<Rightarrow> error + (nat \<times> nat \<times> string)" where
  "copy_loop s limit (counterSource, counterResult, buffer) =
     (if counterSource < limit
      then (if counterSource < length s
            then copy_loop s limit
                   (counterSource + 1, counterResult + 1, buffer @ [s ! counterSource])
            else Inl LiteralOverrun)
      else Inr (counterSource, counterResult, buffer))"
  by pat_completeness auto
termination
  by (relation "measure (\<lambda>(s, limit, counterSource, counterResult, buffer). limit - counterSource)")
    auto

declare copy_loop.simps [simp del]

text \<open>The recursive lambda \<^verbatim>\<open>parse\<close>, lines 504-521.\<close>

fun parse ::
  "platform \<Rightarrow> SpecifierData list \<Rightarrow> string \<Rightarrow> arg list \<Rightarrow> nat \<times> nat \<times> string
   \<Rightarrow> error + (nat \<times> nat \<times> string)" where
  "parse P table s [] st = Inl NoMatchingFunction"
| "parse P table s (first # rest) st =
     (if length table < length rest + 1 then Inl NotConstant
      else
        let tableIndex = length table - (length rest + 1);
            d = table ! tableIndex
        in (case copy_loop s (position d) st of
              Inl e \<Rightarrow> Inl e
            | Inr (counterSource, counterResult, buffer) \<Rightarrow>
                (case formatArg P (specifier d) first (width d) of
                   Inl e \<Rightarrow> Inl e
                 | Inr out \<Rightarrow>
                     let st' = (counterSource + size' d, counterResult + length out, buffer @ out)
                     in if rest \<noteq> [] then parse P table s rest st'
                        else copy_loop s (length s) st')))"

text \<open>
  The sink records each array handed to \<^verbatim>\<open>puts.puts\<close>. \<^verbatim>\<open>printf\<close>, lines 477-527 and
  (without arguments) 535-538. A store lands outside \<^verbatim>\<open>char buffer[length]\<close> exactly
  when the bytes stored outnumber \<^verbatim>\<open>length\<close>.
\<close>

type_synonym sink = "string list"

definition printf :: "platform \<Rightarrow> sink \<Rightarrow> string \<Rightarrow> arg list \<Rightarrow> error + (nat \<times> sink)" where
  "printf P puts s args =
     (if args = [] then Inr (length s, puts @ [s])
      else (case build P s args of
              Inl e \<Rightarrow> Inl e
            | Inr (table, len) \<Rightarrow>
                (case parse P table s args (0, 0, []) of
                   Inl e \<Rightarrow> Inl e
                 | Inr (counterSource, counterResult, buffer) \<Rightarrow>
                     if len < counterResult then Inl BufferOverrun
                     else Inr (counterResult, puts @ [buffer]))))"

text \<open>
  \<^verbatim>\<open>struct DataBuffer\<close>, lines 159-164: \<open>data\<close> is \<open>None\<close> for a null pointer, else the
  array it points to; the field \<^verbatim>\<open>length\<close> is \<open>length'\<close> here.
\<close>

record DataBuffer =
  data :: "string option"
  length' :: nat

text \<open>Lines 559-567: one \<^verbatim>\<open>" XX"\<close> group per byte, each handed to the sink.\<close>

definition dump_char :: "int \<Rightarrow> char" where
  "dump_char val = (if val < 10 then char_of (val + 48) else char_of (val + (65 - 10)))"

function dump_loop :: "platform \<Rightarrow> string \<Rightarrow> nat \<Rightarrow> nat \<Rightarrow> sink \<Rightarrow> error + sink" where
  "dump_loop P bytes len i puts =
     (if i < len
      then (if i < length bytes
            then dump_loop P bytes len (i + 1)
                   (puts @ [[CHR '' '', dump_char (char_value P (bytes ! i) div 16),
                             dump_char (char_value P (bytes ! i) mod 16), CHR 0x00]])
            else Inl DataOverrun)
      else Inr puts)"
  by pat_completeness auto
termination
  by (relation "measure (\<lambda>(P, bytes, len, i, puts). len - i)") auto

declare dump_loop.simps [simp del]

text \<open>
  What the build decides for the call \<^verbatim>\<open>printf(str, args...)\<close>: nothing is checked
  by the overload without arguments.
\<close>

definition rejected :: "platform \<Rightarrow> string \<Rightarrow> arg list \<Rightarrow> error option" where
  "rejected P s args =
     (if args = [] then None
      else (case build P s args of Inl e \<Rightarrow> Some e | Inr r \<Rightarrow> None))"

text \<open>
  The overload for data buffers, lines 554-570. Its body instantiates
  \<^verbatim>\<open>printf(str, args...)\<close> whatever the pointer is at run time.
\<close>

definition printf_dump ::
  "platform \<Rightarrow> sink \<Rightarrow> string \<Rightarrow> DataBuffer \<Rightarrow> arg list \<Rightarrow> error + (nat \<times> sink)" where
  "printf_dump P puts s dataBuffer args =
     (case rejected P s args of
        Some e \<Rightarrow> Inl e
      | None \<Rightarrow>
          (case data dataBuffer of
             None \<Rightarrow> Inr (0, puts)
           | Some bytes \<Rightarrow>
               (case printf P puts s args of
                  Inl e \<Rightarrow> Inl e
                | Inr (len, puts1) \<Rightarrow>
                    (case dump_loop P bytes (length' dataBuffer) 0 puts1 of
                       Inl e \<Rightarrow> Inl e
                     | Inr puts2 \<Rightarrow>
                         Inr ((4 - 1) * length' dataBuffer + len + (3 - 1),
                              puts2 @ [[CHR 0x0D, CHR 0x0A, CHR 0x00]])))))"

subsection \<open>Reference notions for the statements\<close>

text \<open>
  The decimal numeral of a natural number, most significant digit first, without
  leading zeros (one digit for 0): what the statements below call the natural digits.
\<close>

function decimal :: "nat \<Rightarrow> string" where
  "decimal n = (if n div 10 = 0 then [] else decimal (n div 10)) @ [char_of (n mod 10 + 48)]"
  by pat_completeness auto
termination
  by (relation "measure (\<lambda>n. n)") auto

declare decimal.simps [simp del]

text \<open>The value of a run of decimal digits.\<close>

definition dec_value :: "string \<Rightarrow> nat" where
  "dec_value ds = foldl (\<lambda>v c. 10 * v + (of_char c - 48)) 0 ds"

text \<open>The digits that follow index \<open>p\<close> of \<open>s\<close>, and the index of the byte after them.\<close>

definition digit_run :: "string \<Rightarrow> nat \<Rightarrow> string" where
  "digit_run s p = takeWhile IsDigit (drop (p + 1) s)"

definition suffix_index :: "string \<Rightarrow> nat \<Rightarrow> nat" where
  "suffix_index s p = p + 1 + length (digit_run s p)"

text \<open>
  The entry the scanner records for a \<^verbatim>\<open>%\<close> it meets at index \<open>p\<close>, and the entries
  it records from index \<open>i\<close> on, as a list: after a \<^verbatim>\<open>%\<close> it goes on behind the
  specifier's last byte.
\<close>

definition entry_at :: "string \<Rightarrow> nat \<Rightarrow> SpecifierData" where
  "entry_at s p =
     \<lparr>specifier = match_specifier (s ! suffix_index s p),
      width = of_nat (dec_value (digit_run s p)),
      position = p, size' = length (digit_run s p) + 2\<rparr>"

function entries :: "string \<Rightarrow> nat \<Rightarrow> SpecifierData list" where
  "entries s i =
     (if i < length s
      then (if s ! i = CHR ''%''
            then entry_at s i # entries s (suffix_index s i + 1)
            else entries s (i + 1))
      else [])"
  by pat_completeness auto
termination
  by (relation "measure (\<lambda>(s, i). length s - i)") (auto simp: suffix_index_def)

declare entries.simps [simp del]

text \<open>
  The renderer in the words of the specification: for each table entry in order, the
  literal bytes from the source cursor up to the entry's position, then the rendering of
  the argument at the same place in the argument list, the cursor going on to the
  entry's position plus its encoded size; after the last entry, the remaining bytes of
  the literal, terminator included.
\<close>

fun render_spec ::
  "platform \<Rightarrow> string \<Rightarrow> SpecifierData list \<Rightarrow> arg list \<Rightarrow> nat \<Rightarrow> error + string" where
  "render_spec P lit [] args cursor = Inr (drop cursor lit)"
| "render_spec P lit (e # es) [] cursor = Inl ArityMismatch"
| "render_spec P lit (e # es) (a # as) cursor =
     (case formatArg P (specifier e) a (width e) of
        Inl err \<Rightarrow> Inl err
      | Inr rendered \<Rightarrow>
          (case render_spec P lit es as (position e + size' e) of
             Inl err \<Rightarrow> Inl err
           | Inr rest \<Rightarrow>
               Inr (take (position e - cursor) (drop cursor lit) @ rendered @ rest)))"

text \<open>
  The spans of the entries lie one after the other between the cursor \<open>c\<close> and the
  index \<open>n\<close>.
\<close>

fun spans :: "nat \<Rightarrow> nat \<Rightarrow> SpecifierData list \<Rightarrow> bool" where
  "spans n c [] = (c \<le> n)"
| "spans n c (e # es) = (c \<le> position e \<and> spans n (position e + size' e) es)"

text \<open>
  The errors the compiler reports: a failed \<^verbatim>\<open>static_assert\<close>, a constant evaluation
  that fails, a call no function matches. A function that is declared and never defined
  is missed by the linker only, and the remaining errors are undefined behaviour at run
  time.
\<close>

fun compile_error :: "error \<Rightarrow> bool" where
  "compile_error ArityMismatch = True"
| "compile_error WidthNotAllowed = True"
| "compile_error (InvalidType sp) = True"
| "compile_error NotConstant = True"
| "compile_error NoMatchingFunction = True"
| "compile_error NoDefinition = False"
| "compile_error SignedOverflow = False"
| "compile_error LiteralOverrun = False"
| "compile_error DataOverrun = False"
| "compile_error BufferOverrun = False"

text \<open>A 32-bit target with unsigned \<^verbatim>\<open>char\<close>, for the concrete instances.\<close>

definition arm32 :: platform where
  "arm32 = \<lparr>sizeof_pointer = 4, sizeof_size_t = 4, sizeof_int = 4, char_is_signed = False\<rparr>"

section \<open>Properties of the render routines\<close>

subsection \<open>The loops\<close>

lemma length_swap_loop: "length (swap_loop i b) = length b"
proof (induction i b rule: swap_loop.induct)
  case (1 i buffer)
  show ?case
  proof (cases "i < length buffer div 2")
    case True
    with "1" show ?thesis by (subst swap_loop.simps) (simp add: Let_def)
  next
    case False
    then show ?thesis by (subst swap_loop.simps) (simp add: Let_def)
  qed
qed

lemma nth_swap_loop:
  "k < length b \<Longrightarrow>
   swap_loop i b ! k = (if i \<le> k \<and> k < length b - i then b ! (length b - 1 - k) else b ! k)"
proof (induction i b arbitrary: k rule: swap_loop.induct)
  case (1 i buffer)
  show ?case
  proof (cases "i < length buffer div 2")
    case True
    let ?b = "(buffer[i := buffer ! (length buffer - i - 1)])[length buffer - i - 1 := buffer ! i]"
    have len: "length ?b = length buffer" by simp
    have step: "swap_loop i buffer = swap_loop (i + 1) ?b"
      using True by (subst swap_loop.simps) (simp add: Let_def)
    have ih: "swap_loop (i + 1) ?b ! k =
        (if i + 1 \<le> k \<and> k < length ?b - (i + 1) then ?b ! (length ?b - 1 - k) else ?b ! k)"
      using "1.IH"[OF refl True, of k] "1.prems" len by simp
    show ?thesis
      unfolding step ih len using True "1.prems"
      by (auto simp: nth_list_update)
  next
    case False
    then have stop: "swap_loop i buffer = buffer"
      by (subst swap_loop.simps) (simp add: Let_def)
    have "length buffer - 1 - k = k" if "i \<le> k" "k < length buffer - i"
      using that False by linarith
    then show ?thesis unfolding stop by simp
  qed
qed

text \<open>The swap loop reverses the bytes stored so far.\<close>

lemma swap_loop_rev: "swap_loop 0 b = rev b"
  by (rule nth_equalityI) (simp_all add: length_swap_loop nth_swap_loop rev_nth)

text \<open>The digit loop appends the natural digits, least significant first.\<close>

lemma digit_loop_decimal: "digit_loop n buf = buf @ rev (decimal n)"
proof (induction n buf rule: digit_loop.induct)
  case (1 arg buffer)
  show ?case
  proof (cases "arg div 10 = 0")
    case True
    then show ?thesis
      by (subst digit_loop.simps, subst decimal.simps) (simp add: Let_def)
  next
    case False
    then show ?thesis
      using "1.IH"[OF refl]
      by (subst digit_loop.simps, subst decimal.simps) (simp add: Let_def)
  qed
qed

lemma pad_loop_replicate: "pad_loop w buf = buf @ replicate (w - length buf) (CHR ''0'')"
proof (induction w buf rule: pad_loop.induct)
  case (1 width buffer)
  show ?case
  proof (cases "length buffer < width")
    case True
    then have "width - length buffer = Suc (width - Suc (length buffer))" by simp
    then show ?thesis
      using "1.IH"[OF True] True
      by (subst pad_loop.simps) (simp add: replicate_app_Cons_same)
  next
    case False
    then show ?thesis by (subst pad_loop.simps) simp
  qed
qed

lemma hex_loop_map:
  "hex_loop i len bits arg =
     map (\<lambda>j. hex_char ((arg div 2 ^ (bits - (j - 1) * 4)) mod 16)) [i ..< len]"
proof (induction i len bits arg rule: hex_loop.induct)
  case (1 i len bits arg)
  show ?case
  proof (cases "i < len")
    case True
    then show ?thesis
      using "1.IH"[OF True]
      by (subst hex_loop.simps) (simp add: upt_conv_Cons)
  next
    case False
    then show ?thesis by (subst hex_loop.simps) simp
  qed
qed

subsection \<open>The routines\<close>

lemma formatArg_unsigned_decimal:
  "formatArg_unsigned n w = replicate (unat w - length (decimal n)) (CHR ''0'') @ decimal n"
  by (simp add: formatArg_unsigned_def Let_def swap_loop_rev digit_loop_decimal
      pad_loop_replicate unat_eq_zero)

lemma formatArg_signed_decimal:
  "formatArg_signed P sz v w =
     (if v < 0 \<and> sizeof_int P \<le> sz \<and> - v = 2 ^ (8 * sz - 1) then Inl SignedOverflow
      else Inr ((if v < 0 then ''-'' else []) @
                replicate (unat w - length (decimal (nat \<bar>v\<bar>))) (CHR ''0'') @
                decimal (nat \<bar>v\<bar>)))"
proof -
  have abs: "(if v < 0 then - v else v) = \<bar>v\<bar>" by simp
  show ?thesis
    unfolding formatArg_signed_def Let_def abs
    by (simp add: swap_loop_rev digit_loop_decimal pad_loop_replicate unat_eq_zero)
qed

lemma formatArg_hex_nibbles:
  "formatArg_hex sz arg =
     ''0x'' @ map (\<lambda>k. hex_char ((arg div 16 ^ (2 * sz - 1 - k)) mod 16)) [0 ..< 2 * sz]"
proof -
  have pow: "(2::nat) ^ (4 * m) = 16 ^ m" for m
    by (simp add: power_mult)
  have shift: "8 * sz - (k + 2 - 1) * 4 = 4 * (2 * sz - 1 - k)" if "k < 2 * sz" for k
    using that by simp
  have "[2 ..< 2 * sz + 2] = map (\<lambda>k. k + 2) [0 ..< 2 * sz]"
    by (simp only: map_add_upt)
  then have "map (\<lambda>j. hex_char ((arg div 2 ^ (8 * sz - (j - 1) * 4)) mod 16)) [2 ..< 2 * sz + 2]
      = map (\<lambda>k. hex_char ((arg div 2 ^ (8 * sz - (k + 2 - 1) * 4)) mod 16)) [0 ..< 2 * sz]"
    by (simp add: comp_def)
  also have "\<dots> = map (\<lambda>k. hex_char ((arg div 16 ^ (2 * sz - 1 - k)) mod 16)) [0 ..< 2 * sz]"
    by (rule map_cong[OF refl]) (simp only: set_upt atLeastLessThan_iff shift pow)
  finally show ?thesis by (simp add: formatArg_hex_def hex_loop_map)
qed

lemma hex_char_all: "list_all (\<lambda>val. hex_char val = ''0123456789ABCDEF'' ! val) [0 ..< 16]"
  by code_simp

lemma hex_char_table: "val < 16 \<Longrightarrow> hex_char val = ''0123456789ABCDEF'' ! val"
  using hex_char_all by (simp add: list_all_iff)

lemma length_decimal_pos: "0 < length (decimal n)"
  by (subst decimal.simps) simp

lemma length_decimal_le: "0 < k \<Longrightarrow> n < 10 ^ k \<Longrightarrow> length (decimal n) \<le> k"
proof (induction k arbitrary: n)
  case 0
  then show ?case by simp
next
  case (Suc k)
  show ?case
  proof (cases "n div 10 = 0")
    case True
    then show ?thesis by (subst decimal.simps) simp
  next
    case False
    then have k: "0 < k" using Suc.prems by (cases k) auto
    have "n div 10 < 10 ^ k" using Suc.prems by (simp add: less_mult_imp_div_less mult.commute)
    from Suc.IH[OF k this] False show ?thesis by (subst decimal.simps) simp
  qed
qed

text \<open>The natural digits are decimal digits, and their value is the number.\<close>

lemma dec_value_snoc: "dec_value (ds @ [c]) = 10 * dec_value ds + (of_char c - 48)"
  by (simp add: dec_value_def)

lemma dec_value_decimal: "dec_value (decimal n) = n"
proof (induction n rule: decimal.induct)
  case (1 n)
  have c: "of_char (char_of (n mod 10 + 48) :: char) - 48 = n mod 10"
  proof -
    have "n mod 10 < 10" by simp
    then have "(n mod 10 + 48) mod 256 = n mod 10 + 48" by (intro mod_less) linarith
    then show ?thesis by simp
  qed
  show ?case
  proof (cases "n div 10 = 0")
    case True
    then have "n mod 10 = n" by simp
    with True c show ?thesis
      by (subst decimal.simps) (simp add: dec_value_def)
  next
    case False
    with "1.IH" c show ?thesis
      by (subst decimal.simps) (simp add: dec_value_snoc)
  qed
qed

lemma decimal_digits: "c \<in> set (decimal n) \<Longrightarrow> IsDigit c"
proof (induction n rule: decimal.induct)
  case (1 n)
  have d: "IsDigit (char_of (n mod 10 + 48))"
  proof -
    have "n mod 10 < 10" by simp
    then have "(n mod 10 + 48) mod 256 = n mod 10 + 48" "n mod 10 + 48 \<le> 57"
      by (intro mod_less, linarith) linarith
    then show ?thesis unfolding IsDigit_def by simp
  qed
  from "1.prems" have "c = char_of (n mod 10 + 48) \<or> (n div 10 \<noteq> 0 \<and> c \<in> set (decimal (n div 10)))"
    by (subst (asm) decimal.simps) (auto split: if_splits)
  with d "1.IH" show ?case by auto
qed

section \<open>Properties of the scanner\<close>

subsection \<open>Literals and the width loop\<close>

lemma length_string_lit [simp]: "length (string_lit text) = length text + 1"
  by (simp add: string_lit_def)

lemma nth_string_lit:
  "string_lit text ! i = (if i < length text then text ! i else if i = length text then CHR 0x00 else [] ! (i - length text - 1))"
  by (auto simp: string_lit_def nth_append nth_Cons')

lemma nth_string_lit_last [simp]: "string_lit text ! length text = CHR 0x00"
  by (simp add: string_lit_def)

lemma not_digit_NUL [simp]: "\<not> IsDigit (CHR 0x00)"
  by (simp add: IsDigit_def)

lemma not_digit_percent [simp]: "\<not> IsDigit (CHR ''%'')"
  by (simp add: IsDigit_def)

lemma length_takeWhile_snoc:
  "\<not> P z \<Longrightarrow> length (takeWhile P (ys @ [z])) \<le> length ys"
  by (simp add: takeWhile_append length_takeWhile_le)

lemma percent_before_terminator:
  "i < length (string_lit text) \<Longrightarrow> string_lit text ! i = CHR ''%'' \<Longrightarrow> i < length text"
  by (cases "i = length text") auto

lemma suffix_index_less:
  assumes "p < length text"
  shows "suffix_index (string_lit text) p < length (string_lit text)"
proof -
  have "drop (p + 1) (string_lit text) = drop (p + 1) text @ [CHR 0x00]"
    using assms by (simp add: string_lit_def)
  then have "length (digit_run (string_lit text) p) \<le> length text - (p + 1)"
    using length_takeWhile_snoc[of IsDigit "CHR 0x00" "drop (p + 1) text"]
    by (simp add: digit_run_def)
  with assms show ?thesis by (simp add: suffix_index_def)
qed

lemma suffix_index_greater: "p < suffix_index s p"
  by (simp add: suffix_index_def)

lemma foldl_width_of_nat:
  "foldl (\<lambda>v c. 10 * v + of_nat (of_char c - 48)) (of_nat n :: 32 word) ds =
   of_nat (foldl (\<lambda>v c. 10 * v + (of_char c - 48)) n ds)"
proof (induction ds arbitrary: n)
  case Nil
  show ?case by simp
next
  case (Cons a ds)
  have "10 * (of_nat n :: 32 word) + of_nat (of_char a - 48) = of_nat (10 * n + (of_char a - 48))"
    by simp
  with Cons.IH[of "10 * n + (of_char a - 48)"] show ?case
    by (simp del: of_nat_add of_nat_mult)
qed

lemma width_loop_run:
  "width_loop s i w =
     (if i + length (takeWhile IsDigit (drop i s)) < length s
      then Some (i + length (takeWhile IsDigit (drop i s)),
                 foldl (\<lambda>v c. 10 * v + of_nat (of_char c - 48)) w (takeWhile IsDigit (drop i s)))
      else None)"
proof (induction s i w rule: width_loop.induct)
  case (1 s i w)
  show ?case
  proof (cases "i < length s")
    case False
    then show ?thesis by (subst width_loop.simps) simp
  next
    case True
    then have d: "drop i s = s ! i # drop (i + 1) s"
      by (simp add: Cons_nth_drop_Suc)
    show ?thesis
    proof (cases "IsDigit (s ! i)")
      case False
      with True d show ?thesis by (subst width_loop.simps) simp
    next
      case digit: True
      show ?thesis
      proof (cases "s ! i = CHR ''0'' \<and> w = 0")
        case True
        with \<open>i < length s\<close> digit d "1.IH"(1)[OF \<open>i < length s\<close> digit True]
        show ?thesis by (subst width_loop.simps) simp
      next
        case False
        with \<open>i < length s\<close> digit d "1.IH"(2)[OF \<open>i < length s\<close> digit False]
        show ?thesis by (subst width_loop.simps) auto
      qed
    qed
  qed
qed

lemma width_loop_string_lit:
  assumes "p < length text"
  shows "width_loop (string_lit text) (p + 1) 0 =
     Some (suffix_index (string_lit text) p, of_nat (dec_value (digit_run (string_lit text) p)))"
proof -
  have "foldl (\<lambda>v c. 10 * v + of_nat (of_char c - 48)) (of_nat 0 :: 32 word) ds =
        of_nat (dec_value ds)" for ds
    unfolding dec_value_def by (rule foldl_width_of_nat)
  then show ?thesis
    using suffix_index_less[OF assms]
    by (simp add: width_loop_run suffix_index_def digit_run_def)
qed

subsection \<open>The table is the list of entries, then zeroed entries\<close>

lemma SpecifierQuantity_filter:
  "SpecifierQuantity s = length (filter (\<lambda>c. c = CHR ''%'') s)"
proof -
  have "fold (\<lambda>c quantity. if c = CHR ''%'' then quantity + 1 else quantity) s n
      = n + length (filter (\<lambda>c. c = CHR ''%'') s)" for n
    by (induction s arbitrary: n) simp_all
  then show ?thesis by (simp add: SpecifierQuantity_def)
qed

lemma length_filter_drop_le:
  "length (filter P (drop n xs)) \<le> length (filter P xs)"
proof -
  have "filter P xs = filter P (take n xs) @ filter P (drop n xs)"
    by (metis append_take_drop_id filter_append)
  then show ?thesis by simp
qed

lemma length_entries_le:
  "length (entries s i) \<le> length (filter (\<lambda>c. c = CHR ''%'') (drop i s))"
proof (induction s i rule: entries.induct)
  case (1 s i)
  show ?case
  proof (cases "i < length s")
    case False
    then show ?thesis by (subst entries.simps) simp
  next
    case True
    then have d: "drop i s = s ! i # drop (i + 1) s"
      by (simp add: Cons_nth_drop_Suc)
    show ?thesis
    proof (cases "s ! i = CHR ''%''")
      case False
      with True "1.IH"(2) d show ?thesis by (subst entries.simps) simp
    next
      case percent: True
      have "drop (suffix_index s i + 1) s = drop (suffix_index s i - i) (drop (i + 1) s)"
        using suffix_index_greater[of i s] by simp
      then have "length (filter (\<lambda>c. c = CHR ''%'') (drop (suffix_index s i + 1) s))
          \<le> length (filter (\<lambda>c. c = CHR ''%'') (drop (i + 1) s))"
        by (simp only: length_filter_drop_le)
      with True percent "1.IH"(1) d show ?thesis
        by (subst entries.simps) simp
    qed
  qed
qed

lemma scan_loop_entries:
  "pos + length (entries (string_lit text) i) \<le> length d \<Longrightarrow>
   scan_loop (string_lit text) i pos d =
     Some (take pos d @ entries (string_lit text) i
           @ drop (pos + length (entries (string_lit text) i)) d)"
proof (induction "string_lit text" i arbitrary: pos d rule: entries.induct)
  case (1 i)
  let ?s = "string_lit text"
  show ?case
  proof (cases "i < length ?s")
    case False
    then have "entries ?s i = []" by (subst entries.simps) simp
    moreover have "scan_loop ?s i pos d = Some d" using False by (subst scan_loop.simps) simp
    ultimately show ?thesis by simp
  next
    case True
    show ?thesis
    proof (cases "?s ! i = CHR ''%''")
      case False
      then have e: "entries ?s i = entries ?s (i + 1)"
        using True by (subst entries.simps) simp
      have "scan_loop ?s i pos d = scan_loop ?s (i + 1) pos d"
        using True False by (subst scan_loop.simps) simp
      with "1.hyps"(2)[OF True False, of pos d] "1.prems" e show ?thesis by simp
    next
      case percent: True
      let ?j = "suffix_index ?s i"
      let ?e = "entry_at ?s i"
      have i: "i < length text" using True percent by (rule percent_before_terminator)
      have e: "entries ?s i = ?e # entries ?s (?j + 1)"
        using True percent by (subst entries.simps) simp
      have pos: "pos < length d" using "1.prems" e by simp
      have sz: "?j - i + 1 = length (digit_run ?s i) + 2"
        by (simp add: suffix_index_def)
      have step: "scan_loop ?s i pos d = scan_loop ?s (?j + 1) (pos + 1) (d[pos := ?e])"
        using True percent pos width_loop_string_lit[OF i] sz
        by (subst scan_loop.simps) (simp add: entry_at_def)
      have "pos + 1 + length (entries ?s (?j + 1)) \<le> length (d[pos := ?e])"
        using "1.prems" e by simp
      from "1.hyps"(1)[OF True percent this]
      have "scan_loop ?s (?j + 1) (pos + 1) (d[pos := ?e]) =
          Some (take (pos + 1) (d[pos := ?e]) @ entries ?s (?j + 1)
                @ drop (pos + 1 + length (entries ?s (?j + 1))) (d[pos := ?e]))" .
      moreover have "take (pos + 1) (d[pos := ?e]) = take pos d @ [?e]"
        using pos by (simp add: take_Suc_conv_app_nth)
      moreover have "drop (pos + 1 + length (entries ?s (?j + 1))) (d[pos := ?e])
          = drop (pos + 1 + length (entries ?s (?j + 1))) d"
        by simp
      ultimately show ?thesis using step e by simp
    qed
  qed
qed

lemma SpecifierTable_entries:
  "SpecifierTable (string_lit text) (SpecifierQuantity (string_lit text)) =
     Some (entries (string_lit text) 0
           @ replicate (SpecifierQuantity (string_lit text) - length (entries (string_lit text) 0))
               SpecifierData_init)"
proof -
  have "length (entries (string_lit text) 0) \<le> SpecifierQuantity (string_lit text)"
    using length_entries_le[of "string_lit text" 0] by (simp add: SpecifierQuantity_filter)
  then show ?thesis
    by (simp add: SpecifierTable_def scan_loop_entries)
qed

subsection \<open>What the entries are and where they lie\<close>

lemma digit_run_digits:
  "p < r \<Longrightarrow> r < suffix_index s p \<Longrightarrow> IsDigit (s ! r)"
proof -
  assume a: "p < r" "r < suffix_index s p"
  let ?k = "r - (p + 1)"
  have k: "?k < length (takeWhile IsDigit (drop (p + 1) s))"
    using a by (auto simp: suffix_index_def digit_run_def)
  then have "takeWhile IsDigit (drop (p + 1) s) ! ?k \<in> set (takeWhile IsDigit (drop (p + 1) s))"
    by (rule nth_mem)
  then have "IsDigit (takeWhile IsDigit (drop (p + 1) s) ! ?k)"
    by (rule set_takeWhileD[THEN conjunct2])
  moreover have "takeWhile IsDigit (drop (p + 1) s) ! ?k = drop (p + 1) s ! ?k"
    using k by (rule takeWhile_nth)
  moreover have "p + 1 + ?k \<le> length s"
    using k length_takeWhile_le[of IsDigit "drop (p + 1) s"] by simp
  ultimately show ?thesis using a by simp
qed

lemma suffix_not_digit:
  "suffix_index s p < length s \<Longrightarrow> \<not> IsDigit (s ! suffix_index s p)"
proof -
  assume a: "suffix_index s p < length s"
  then have "length (takeWhile IsDigit (drop (p + 1) s)) < length (drop (p + 1) s)"
    by (auto simp: suffix_index_def digit_run_def)
  then have "\<not> IsDigit (drop (p + 1) s ! length (takeWhile IsDigit (drop (p + 1) s)))"
    by (rule nth_length_takeWhile)
  then show ?thesis using a by (simp add: suffix_index_def digit_run_def add.assoc)
qed

lemma suffix_index_le_nondigit:
  assumes "p < r" "r < length s" "\<not> IsDigit (s ! r)"
  shows "suffix_index s p \<le> r"
proof (rule ccontr)
  assume "\<not> suffix_index s p \<le> r"
  then have "r < suffix_index s p" by simp
  with assms(1) have "IsDigit (s ! r)" by (rule digit_run_digits)
  with assms(3) show False by simp
qed

lemma entries_member:
  "e \<in> set (entries s i) \<Longrightarrow>
     i \<le> position e \<and> position e < length s \<and> s ! position e = CHR ''%''
     \<and> e = entry_at s (position e)"
proof (induction s i rule: entries.induct)
  case (1 s i)
  show ?case
  proof (cases "i < length s")
    case False
    with "1.prems" show ?thesis by (subst (asm) entries.simps) simp
  next
    case True
    show ?thesis
    proof (cases "s ! i = CHR ''%''")
      case False
      with True "1.prems" have "e \<in> set (entries s (i + 1))"
        by (subst (asm) entries.simps) simp
      from "1.IH"(2)[OF True False this] show ?thesis by simp
    next
      case percent: True
      with True "1.prems" have "e = entry_at s i \<or> e \<in> set (entries s (suffix_index s i + 1))"
        by (subst (asm) entries.simps) simp
      then show ?thesis
      proof
        assume "e = entry_at s i"
        then have "position e = i" by (simp add: entry_at_def)
        with \<open>e = entry_at s i\<close> True percent show ?thesis by simp
      next
        assume "e \<in> set (entries s (suffix_index s i + 1))"
        from "1.IH"(1)[OF True percent this] suffix_index_greater[of i s]
        show ?thesis by simp
      qed
    qed
  qed
qed

lemma entries_cover:
  "i \<le> p \<Longrightarrow> p < length s \<Longrightarrow> s ! p = CHR ''%'' \<Longrightarrow>
     entry_at s p \<in> set (entries s i)
     \<or> (\<exists>q. i \<le> q \<and> q < p \<and> s ! q = CHR ''%'' \<and> suffix_index s q = p
              \<and> entry_at s q \<in> set (entries s i))"
proof (induction s i rule: entries.induct)
  case (1 s i)
  from "1.prems" have True: "i < length s" by simp
  show ?case
  proof (cases "s ! i = CHR ''%''")
    case False
    with "1.prems" have "i + 1 \<le> p" by (cases "i = p") auto
    from "1.IH"(2)[OF True False this "1.prems"(2,3)]
    have "entry_at s p \<in> set (entries s (i + 1))
        \<or> (\<exists>q. i + 1 \<le> q \<and> q < p \<and> s ! q = CHR ''%'' \<and> suffix_index s q = p
              \<and> entry_at s q \<in> set (entries s (i + 1)))" .
    moreover have "entries s i = entries s (i + 1)"
      using True False by (subst entries.simps) simp
    ultimately show ?thesis by auto
  next
    case percent: True
    have e: "entries s i = entry_at s i # entries s (suffix_index s i + 1)"
      using True percent by (subst entries.simps) simp
    show ?thesis
    proof (cases "p = i")
      case True
      with e show ?thesis by simp
    next
      case False
      with "1.prems" have ip: "i < p" by simp
      have "\<not> IsDigit (s ! p)" using "1.prems" by simp
      with ip "1.prems"(2) have le: "suffix_index s i \<le> p" by (rule suffix_index_le_nondigit)
      show ?thesis
      proof (cases "suffix_index s i = p")
        case True
        with ip percent e show ?thesis by auto
      next
        case False
        with le have "suffix_index s i + 1 \<le> p" by simp
        from "1.IH"(1)[OF \<open>i < length s\<close> percent this "1.prems"(2,3)]
        have "entry_at s p \<in> set (entries s (suffix_index s i + 1))
          \<or> (\<exists>q. suffix_index s i + 1 \<le> q \<and> q < p \<and> s ! q = CHR ''%'' \<and> suffix_index s q = p
              \<and> entry_at s q \<in> set (entries s (suffix_index s i + 1)))" .
        then show ?thesis
        proof
          assume "entry_at s p \<in> set (entries s (suffix_index s i + 1))"
          with e show ?thesis by simp
        next
          assume "\<exists>q. suffix_index s i + 1 \<le> q \<and> q < p \<and> s ! q = CHR ''%'' \<and> suffix_index s q = p
              \<and> entry_at s q \<in> set (entries s (suffix_index s i + 1))"
          then obtain q where q: "suffix_index s i + 1 \<le> q" "q < p" "s ! q = CHR ''%''"
            "suffix_index s q = p" "entry_at s q \<in> set (entries s (suffix_index s i + 1))"
            by blast
          have "i \<le> q" using q(1) suffix_index_greater[of i s] by simp
          with q e show ?thesis by auto
        qed
      qed
    qed
  qed
qed

lemma match_specifier_NUL [simp]: "match_specifier (CHR 0x00) = Unknown"
  by (simp add: match_specifier_def specifiers_def)

lemma match_specifier_percent [simp]: "match_specifier (CHR ''%'') = Unknown"
  by (simp add: match_specifier_def specifiers_def)

text \<open>Each kind character names its kind.\<close>

lemma match_specifier_kind: "sp \<noteq> Unknown \<Longrightarrow> match_specifier (specifier_char sp) = sp"
  by (cases sp) (simp_all add: match_specifier_def specifiers_def)

lemma spans_mono: "c' \<le> c \<Longrightarrow> spans n c es \<Longrightarrow> spans n c' es"
  by (cases es) auto

lemma spans_entries:
  "i \<le> length text \<Longrightarrow> Unknown \<notin> set (map specifier (entries (string_lit text) i)) \<Longrightarrow>
   spans (length text) i (entries (string_lit text) i)"
proof (induction "string_lit text" i rule: entries.induct)
  case (1 i)
  let ?s = "string_lit text"
  show ?case
  proof (cases "i < length text")
    case False
    with "1.prems" have i: "i = length text" by simp
    have "entries ?s (i + 1) = []" using i by (subst entries.simps) simp
    then have "entries ?s i = []" using i by (subst entries.simps) simp
    with i show ?thesis by simp
  next
    case True
    then have lt: "i < length ?s" by simp
    show ?thesis
    proof (cases "?s ! i = CHR ''%''")
      case False
      then have e: "entries ?s i = entries ?s (i + 1)"
        using lt by (subst entries.simps) simp
      from "1.hyps"(2)[OF lt False] True "1.prems"(2) e
      have "spans (length text) (i + 1) (entries ?s (i + 1))" by simp
      then show ?thesis unfolding e by (rule spans_mono[rotated]) simp
    next
      case percent: True
      let ?j = "suffix_index ?s i"
      have e: "entries ?s i = entry_at ?s i # entries ?s (?j + 1)"
        using lt percent by (subst entries.simps) simp
      have j: "?j < length ?s" using True by (rule suffix_index_less)
      have "match_specifier (?s ! ?j) \<noteq> Unknown"
        using "1.prems"(2) e by (auto simp: entry_at_def)
      then have "?j \<noteq> length text" by auto
      with j have j': "?j + 1 \<le> length text" by simp
      from "1.hyps"(1)[OF lt percent j'] "1.prems"(2) e
      have "spans (length text) (?j + 1) (entries ?s (?j + 1))" by simp
      moreover have "position (entry_at ?s i) + size' (entry_at ?s i) = ?j + 1"
        by (simp add: entry_at_def suffix_index_def)
      ultimately show ?thesis unfolding e by (simp add: entry_at_def)
    qed
  qed
qed

section \<open>Properties of the renderer\<close>

lemma copy_loop_take:
  "cs \<le> limit \<Longrightarrow> limit \<le> length s \<Longrightarrow>
   copy_loop s limit (cs, cr, buf) =
     Inr (limit, cr + (limit - cs), buf @ take (limit - cs) (drop cs s))"
proof (induction s limit "(cs, cr, buf)" arbitrary: cs cr buf rule: copy_loop.induct)
  case (1 s limit counterSource counterResult buffer)
  show ?case
  proof (cases "counterSource < limit")
    case False
    with "1.prems" show ?thesis by (subst copy_loop.simps) simp
  next
    case True
    with "1.prems" have lt: "counterSource < length s" by simp
    have "take (limit - counterSource) (drop counterSource s)
        = s ! counterSource # take (limit - (counterSource + 1)) (drop (counterSource + 1) s)"
      using True lt
      by (metis Cons_nth_drop_Suc Suc_diff_Suc Suc_eq_plus1 take_Suc_Cons)
    with "1.hyps"[OF True lt] True lt "1.prems" show ?thesis
      by (subst copy_loop.simps) simp
  qed
qed

lemma spans_le: "spans n c es \<Longrightarrow> c \<le> n"
proof (induction es arbitrary: c)
  case Nil
  then show ?case by simp
next
  case (Cons e es)
  from Cons.IH[of "position e + size' e"] Cons.prems show ?case by simp
qed

lemma spans_sorted:
  "spans n c es \<Longrightarrow> sorted (map position es) \<and> (\<forall>e \<in> set es. c \<le> position e)"
proof (induction es arbitrary: c)
  case Nil
  then show ?case by simp
next
  case (Cons e es)
  from Cons.IH[of "position e + size' e"] Cons.prems
  have "sorted (map position es)" "\<forall>x \<in> set es. position e + size' e \<le> position x"
    by simp_all
  with Cons.prems show ?case by fastforce
qed

lemma parse_render:
  assumes "args \<noteq> []" and "length args \<le> length table"
    and "spans n cs (drop (length table - length args) table)" and "n \<le> length s"
  shows "parse P table s args (cs, cr, buf) =
     (case render_spec P s (drop (length table - length args) table) args cs of
        Inl e \<Rightarrow> Inl e
      | Inr out \<Rightarrow> Inr (length s, cr + length out, buf @ out))"
  using assms
proof (induction args arbitrary: cs cr buf)
  case Nil
  then show ?case by simp
next
  case (Cons first rest)
  let ?k = "length table - (length rest + 1)"
  let ?d = "table ! ?k"
  let ?es = "drop (length table - length rest) table"
  have k: "?k < length table" using Cons.prems(2) by simp
  have nolt: "\<not> length table < length rest + 1" using Cons.prems(2) by simp
  have dr: "drop (length table - length (first # rest)) table = ?d # ?es"
    using k Cons.prems(2)
    by (metis Cons_nth_drop_Suc Suc_diff_Suc Suc_eq_plus1 length_Cons less_eq_Suc_le
        add_diff_cancel_right' diff_diff_left plus_1_eq_Suc)
  from Cons.prems(3) dr have sp: "cs \<le> position ?d" "spans n (position ?d + size' ?d) ?es"
    by simp_all
  from sp(2) have "position ?d + size' ?d \<le> n" by (rule spans_le)
  with Cons.prems(4) have pos: "position ?d \<le> length s" "position ?d + size' ?d \<le> length s"
    by simp_all
  have cp: "copy_loop s (position ?d) (cs, cr, buf) =
      Inr (position ?d, cr + (position ?d - cs), buf @ take (position ?d - cs) (drop cs s))"
    using sp(1) pos(1) by (rule copy_loop_take)
  have lt: "length (take (position ?d - cs) (drop cs s)) = position ?d - cs"
    using pos(1) by simp
  show ?case
  proof (cases "formatArg P (specifier ?d) first (width ?d)")
    case (Inl e)
    with nolt cp dr show ?thesis by (simp add: Let_def)
  next
    case (Inr out)
    show ?thesis
    proof (cases "rest = []")
      case True
      then have es: "?es = []" by simp
      have "copy_loop s (length s)
              (position ?d + size' ?d, cr + (position ?d - cs) + length out,
               (buf @ take (position ?d - cs) (drop cs s)) @ out)
          = Inr (length s, cr + (position ?d - cs) + length out + (length s - (position ?d + size' ?d)),
                 ((buf @ take (position ?d - cs) (drop cs s)) @ out)
                 @ take (length s - (position ?d + size' ?d)) (drop (position ?d + size' ?d) s))"
        using pos(2) by (intro copy_loop_take) simp_all
      with True nolt cp dr Inr es lt show ?thesis by (simp add: Let_def)
    next
      case False
      have le: "length rest \<le> length table" using Cons.prems(2) by simp
      from Cons.IH[OF False le sp(2) Cons.prems(4),
          of "cr + (position ?d - cs) + length out"
             "(buf @ take (position ?d - cs) (drop cs s)) @ out"]
      have "parse P table s rest
              (position ?d + size' ?d, cr + (position ?d - cs) + length out,
               (buf @ take (position ?d - cs) (drop cs s)) @ out) =
            (case render_spec P s ?es rest (position ?d + size' ?d) of
               Inl e \<Rightarrow> Inl e
             | Inr out' \<Rightarrow>
                 Inr (length s, cr + (position ?d - cs) + length out + length out',
                      ((buf @ take (position ?d - cs) (drop cs s)) @ out) @ out'))" .
      with False nolt cp dr Inr lt show ?thesis
        by (simp add: Let_def split: sum.splits)
    qed
  qed
qed

lemma build_table:
  assumes "build P (string_lit text) args = Inr (table, len)"
  shows "SpecifierTable (string_lit text) (SpecifierQuantity (string_lit text)) = Some table"
    and "table = entries (string_lit text) 0"
    and "length table = length args"
    and "Unknown \<notin> set (map specifier table)"
    and "spans (length text) 0 table"
proof -
  let ?s = "string_lit text"
  let ?t = "entries ?s 0
           @ replicate (SpecifierQuantity ?s - length (entries ?s 0)) SpecifierData_init"
  have t: "SpecifierTable ?s (SpecifierQuantity ?s) = Some ?t"
    by (rule SpecifierTable_entries)
  have le: "length (entries ?s 0) \<le> SpecifierQuantity ?s"
    using length_entries_le[of ?s 0] by (simp add: SpecifierQuantity_filter)
  from assms t have ar: "length args = SpecifierQuantity ?s" and tab: "table = ?t"
    and un: "Unknown \<notin> set (map specifier ?t)"
    by (auto simp: build_def Let_def split: if_splits sum.splits)
  from un have "SpecifierQuantity ?s - length (entries ?s 0) = 0"
    by (cases "SpecifierQuantity ?s - length (entries ?s 0)") (auto simp: SpecifierData_init_def)
  with tab have eq: "table = entries ?s 0" by simp
  from t tab show "SpecifierTable ?s (SpecifierQuantity ?s) = Some table" by simp
  from eq show "table = entries ?s 0" .
  from tab le ar show "length table = length args" by simp
  from un tab show u: "Unknown \<notin> set (map specifier table)" by simp
  from u eq show "spans (length text) 0 table"
    using spans_entries[of 0 "text"] by simp
qed

lemma printf_eq_render_spec:
  assumes "build P (string_lit text) args = Inr (table, len)" and "args \<noteq> []"
  shows "printf P puts (string_lit text) args =
     (case render_spec P (string_lit text) table args 0 of
        Inl e \<Rightarrow> Inl e
      | Inr buffer \<Rightarrow>
          if len < length buffer then Inl BufferOverrun
          else Inr (length buffer, puts @ [buffer]))"
proof -
  note b = build_table[OF assms(1)]
  have "parse P table (string_lit text) args (0, 0, []) =
     (case render_spec P (string_lit text) (drop (length table - length args) table) args 0 of
        Inl e \<Rightarrow> Inl e
      | Inr out \<Rightarrow> Inr (length (string_lit text), 0 + length out, [] @ out))"
    using assms(2) b(3,5) by (intro parse_render[where n = "length text"]) simp_all
  with assms b(3) show ?thesis
    by (simp add: printf_def split: sum.splits)
qed

lemma render_spec_tail:
  "render_spec P (string_lit text) es args c = Inr out \<Longrightarrow> spans (length text) c es \<Longrightarrow>
   \<exists>front cursor. cursor \<le> length text \<and> out = front @ drop cursor text @ [CHR 0x00]"
proof (induction P "string_lit text" es args c arbitrary: out rule: render_spec.induct)
  case (1 P args cursor)
  then have "cursor \<le> length text" "out = [] @ drop cursor text @ [CHR 0x00]"
    by (simp_all add: string_lit_def)
  then show ?case by blast
next
  case (2 P e es cursor)
  then show ?case by simp
next
  case (3 P e es a as cursor)
  from "3.prems"(1) obtain rendered rest
    where r: "formatArg P (specifier e) a (width e) = Inr rendered"
      "render_spec P (string_lit text) es as (position e + size' e) = Inr rest"
      "out = take (position e - cursor) (drop cursor (string_lit text)) @ rendered @ rest"
    by (auto split: sum.splits)
  from "3.prems"(2) have "spans (length text) (position e + size' e) es" by simp
  from "3.hyps"[OF r(1) r(2) this] obtain front c'
    where "c' \<le> length text" "rest = front @ drop c' text @ [CHR 0x00]" by blast
  with r(3) have "c' \<le> length text"
    "out = (take (position e - cursor) (drop cursor (string_lit text)) @ rendered @ front)
           @ drop c' text @ [CHR 0x00]"
    by simp_all
  then show ?case by blast
qed






subsection \<open>Concrete evaluations shared by the statements\<close>

lemma formatArg_hex_zero8: "formatArg_hex (Suc 0) 0 = ''0x00''"
  by code_simp

lemma decimal_555: "decimal 555 = ''555''"
  by (simp add: decimal.simps char_of_eq_iff)

lemma decimal_98765: "decimal 98765 = ''98765''"
  by (simp add: decimal.simps char_of_eq_iff)

lemma formatArg_unsigned_7: "formatArg_unsigned 7 6 = ''000007''"
  by code_simp

lemma decimal_1: "decimal (Suc 0) = ''1''"
  by (simp add: decimal.simps char_of_eq_iff)

lemma decimal_500: "decimal 500 = ''500''"
  by (simp add: decimal.simps char_of_eq_iff)

lemma formatArg_time_59: "formatArg_time 59 = ''0.059''"
  by code_simp

lemma table_d:
  "SpecifierQuantity (string_lit ''%d'') = 1"
  "SpecifierTable (string_lit ''%d'') (Suc 0) =
     Some [\<lparr>specifier = SignedDecimalInteger, width = 0, position = 0, size' = 2\<rparr>]"
  by code_simp+

lemma table_04u:
  "SpecifierQuantity (string_lit ''%04u'') = 1"
  "SpecifierTable (string_lit ''%04u'') (Suc 0) =
     Some [\<lparr>specifier = UnsignedDecimalInteger, width = 4, position = 0, size' = 4\<rparr>]"
  by code_simp+

lemma table_06u:
  "SpecifierQuantity (string_lit ''%06u'') = 1"
  "SpecifierTable (string_lit ''%06u'') (Suc 0) =
     Some [\<lparr>specifier = UnsignedDecimalInteger, width = 6, position = 0, size' = 4\<rparr>]"
  by code_simp+

lemma printf_d_555:
  "printf P puts (string_lit ''%d'') [I32 (- 555)] = Inr (5, puts @ [string_lit ''-555''])"
proof -
  have b: "build P (string_lit ''%d'') [I32 (- 555)] =
      Inr ([\<lparr>specifier = SignedDecimalInteger, width = 0, position = 0, size' = 2\<rparr>], 14)"
    by (simp add: build_def table_d)
  have f: "formatArg P SignedDecimalInteger (I32 (- 555)) 0 = Inr ''-555''"
    by (simp add: formatArg_def formatArg_signed_decimal decimal_555)
  show ?thesis
    by (simp add: printf_eq_render_spec[OF b] f) (simp add: string_lit_def)
qed

lemma printf_04u_98765:
  "printf P puts (string_lit ''%04u'') [U32 98765] = Inr (6, puts @ [string_lit ''98765''])"
proof -
  have b: "build P (string_lit ''%04u'') [U32 98765] =
      Inr ([\<lparr>specifier = UnsignedDecimalInteger, width = 4, position = 0, size' = 4\<rparr>], 15)"
    by (simp add: build_def table_04u)
  have f: "formatArg P UnsignedDecimalInteger (U32 98765) 4 = Inr ''98765''"
    by (simp add: formatArg_def formatArg_unsigned_decimal decimal_98765)
  show ?thesis
    by (simp add: printf_eq_render_spec[OF b] f) (simp add: string_lit_def)
qed

lemma printf_06u_7:
  "printf P puts (string_lit ''%06u'') [U32 7] = Inr (7, puts @ [string_lit ''000007''])"
proof -
  have b: "build P (string_lit ''%06u'') [U32 7] =
      Inr ([\<lparr>specifier = UnsignedDecimalInteger, width = 6, position = 0, size' = 4\<rparr>], 15)"
    by (simp add: build_def table_06u)
  have f: "formatArg P UnsignedDecimalInteger (U32 7) 6 = Inr ''000007''"
    by (simp add: formatArg_def formatArg_unsigned_7)
  show ?thesis
    by (simp add: printf_eq_render_spec[OF b] f) (simp add: string_lit_def)
qed

section \<open>The claims\<close>

text \<open>
  Claim C1 says that the bytes \<^verbatim>\<open>printf\<close> stores never outnumber the capacity that
  \<^verbatim>\<open>CheckSpecsTypes\<close> computes. The capacity of a decimal specifier does not take its
  width into account: for the literal "%020u" and a 32-bit unsigned argument 0 the
  capacity is \<open>10 + 6 = 16\<close>, while the routine pads to 20 digits and the terminator is
  copied after them, 21 bytes in all, so the call stores past the end of the buffer.
\<close>

theorem width_overruns_buffer:
  "build arm32 (string_lit ''%020u'') [U32 0] =
     Inr ([\<lparr>specifier = UnsignedDecimalInteger, width = 20, position = 0, size' = 5\<rparr>], 16)
   \<and> parse arm32
        [\<lparr>specifier = UnsignedDecimalInteger, width = 20, position = 0, size' = 5\<rparr>]
        (string_lit ''%020u'') [U32 0] (0, 0, []) =
      Inr (6, 21, string_lit ''00000000000000000000'')
   \<and> printf arm32 [] (string_lit ''%020u'') [U32 0] = Inl BufferOverrun"
  by code_simp

text \<open>
  Claim C2: for a literal and arguments that the build accepts (as many arguments as
  specifiers, each of a type its specifier allows), the scanner's table has its entries
  in ascending position order and the buffer \<^verbatim>\<open>printf\<close> hands to the sink is, for
  each entry of the table in that order, the literal bytes from the
  source cursor up to the entry's position, then the rendering of the argument at the
  same place, the cursor going on by the entry's encoded size; and after the last entry
  the remaining literal bytes, terminator included. The count returned is the length of
  that buffer. (Where a routine is undefined or the bytes outnumber the buffer, the call
  has that error instead.)
\<close>

theorem printf_renders_as_specified:
  assumes "build P (string_lit text) args = Inr (table, len)" and "args \<noteq> []"
  shows "SpecifierTable (string_lit text) (SpecifierQuantity (string_lit text)) = Some table
     \<and> length table = length args
     \<and> sorted (map position table)
     \<and> printf P puts (string_lit text) args =
         (case render_spec P (string_lit text) table args 0 of
            Inl e \<Rightarrow> Inl e
          | Inr buffer \<Rightarrow>
              if len < length buffer then Inl BufferOverrun
              else Inr (length buffer, puts @ [buffer]))"
  using build_table(1,3)[OF assms(1)] spans_sorted[OF build_table(5)[OF assms(1)]]
    printf_eq_render_spec[OF assms]
  by simp

theorem printf_renders_as_specified_witness:
  "build arm32 (string_lit ''a%db'') [I8 (- 5)] =
     Inr ([\<lparr>specifier = SignedDecimalInteger, width = 0, position = 1, size' = 2\<rparr>], 9)
   \<and> [I8 (- 5)] \<noteq> []
   \<and> render_spec arm32 (string_lit ''a%db'')
        [\<lparr>specifier = SignedDecimalInteger, width = 0, position = 1, size' = 2\<rparr>] [I8 (- 5)] 0
      = Inr (string_lit ''a-5b'')
   \<and> printf arm32 [] (string_lit ''a%db'') [I8 (- 5)] = Inr (5, [string_lit ''a-5b''])"
proof -
  have b: "build arm32 (string_lit ''a%db'') [I8 (- 5)] =
     Inr ([\<lparr>specifier = SignedDecimalInteger, width = 0, position = 1, size' = 2\<rparr>], 9)"
    by code_simp
  have n: "[I8 (- 5)] \<noteq> []" by simp
  have r: "render_spec arm32 (string_lit ''a%db'')
        [\<lparr>specifier = SignedDecimalInteger, width = 0, position = 1, size' = 2\<rparr>] [I8 (- 5)] 0
      = Inr (string_lit ''a-5b'')"
    by code_simp
  have l: "length (string_lit ''a-5b'') = 5" by simp
  from printf_renders_as_specified[OF b n, of "[]"]
  have "printf arm32 [] (string_lit ''a%db'') [I8 (- 5)] = Inr (5, [string_lit ''a-5b''])"
    unfolding r by (simp add: l)
  with b n r show ?thesis by blast
qed




text \<open>
  Outside the amended claim: for an \<open>Unknown\<close> entry the code has no
  \<^verbatim>\<open>static_assert\<close> of its own. The primary template of \<^verbatim>\<open>SpecCheck\<close>, lines 281-293,
  sets \<^verbatim>\<open>valid = false\<close> and asserts nothing, unlike its eight specialisations. A call
  whose arity, widths and types pass is therefore not refused by the compiler; what stops
  it is the missing definition of \<^verbatim>\<open>formatArg\<close>, when the program is linked.
\<close>

lemma unknown_without_width_passes_the_compiler:
  "SpecifierTable (string_lit ''100%'') (SpecifierQuantity (string_lit ''100%'')) =
     Some [\<lparr>specifier = Unknown, width = 0, position = 3, size' = 2\<rparr>]
   \<and> length [U8 0] = length [\<lparr>specifier = Unknown, width = 0, position = 3, size' = 2\<rparr>]
   \<and> checkWidth [\<lparr>specifier = Unknown, width = 0, position = 3, size' = 2\<rparr>]
   \<and> CheckSpecsTypes arm32 [\<lparr>specifier = Unknown, width = 0, position = 3, size' = 2\<rparr>] [U8 0]
       = Inr 0
   \<and> printf arm32 [] (string_lit ''100%'') [U8 0] = Inl NoDefinition
   \<and> \<not> compile_error NoDefinition"
  by code_simp

text \<open>
  Claim C4 says that the maximum-length contribution of a Boolean specifier, as the
  length planner sums it, is 5, the length of "FALSE". The code's constant
  \<^verbatim>\<open>SpecCheck<Boolean, Type>::length\<close> is \<^verbatim>\<open>sizeof("FALSE")\<close>, which counts the
  terminator: it is 6 for every argument type, one more than the longest rendering, while
  the routine itself and the constant of the string specifier subtract the terminator.
\<close>

theorem boolean_length_is_sizeof:
  "SpecCheck_length P Boolean a = 6
   \<and> formatArg_bool False = ''FALSE'' \<and> formatArg_bool True = ''TRUE''"
  by (simp add: sizeof_FALSE_def sizeof_TRUE_def formatArg_bool_def upt_rec)

text \<open>
  Claim C5: for every argument of an unsigned integral type \<open>T\<close>, the \<^verbatim>\<open>%X\<close> routine
  emits \<open>2 * sizeof(T) + 2\<close> bytes: the prefix "0x", then the \<open>2 * sizeof(T)\<close>
  nibbles of the value as characters of "0123456789ABCDEF", most significant first,
  leading zero nibbles included; an 8-bit zero renders as "0x00".
\<close>

theorem hex_fixed_width:
  "valid P UnsignedHexadecimalInteger a \<Longrightarrow>
     formatArg P UnsignedHexadecimalInteger a w =
       Inr (''0x'' @ map (\<lambda>k. ''0123456789ABCDEF'' !
                            ((nat (int_value P a) div 16 ^ (2 * sizeof P a - 1 - k)) mod 16))
                       [0 ..< 2 * sizeof P a])
     \<and> (\<exists>out. formatArg P UnsignedHexadecimalInteger a w = Inr out
                \<and> length out = 2 * sizeof P a + 2)
     \<and> formatArg P UnsignedHexadecimalInteger (U8 0) w = Inr ''0x00''"
proof -
  assume v: "valid P UnsignedHexadecimalInteger a"
  have nib: "hex_char ((x div 16 ^ e) mod 16) = ''0123456789ABCDEF'' ! ((x div 16 ^ e) mod 16)"
    for x e :: nat
    by (rule hex_char_table) simp
  have eq: "formatArg P UnsignedHexadecimalInteger a w =
       Inr (''0x'' @ map (\<lambda>k. ''0123456789ABCDEF'' !
                            ((nat (int_value P a) div 16 ^ (2 * sizeof P a - 1 - k)) mod 16))
                       [0 ..< 2 * sizeof P a])"
    using v by (simp add: formatArg_def formatArg_hex_nibbles nib)
  have zero: "formatArg P UnsignedHexadecimalInteger (U8 0) w = Inr ''0x00''"
    by (simp add: formatArg_def formatArg_hex_zero8)
  from eq zero show ?thesis by simp
qed

theorem hex_fixed_width_witness:
  "valid arm32 UnsignedHexadecimalInteger (U8 0x0B)
   \<and> formatArg arm32 UnsignedHexadecimalInteger (U8 0x0B) 0 = Inr ''0x0B''
   \<and> (\<exists>out. formatArg arm32 UnsignedHexadecimalInteger (U8 0x0B) 0 = Inr out
              \<and> length out = 2 * sizeof arm32 (U8 0x0B) + 2)"
proof -
  have v: "valid arm32 UnsignedHexadecimalInteger (U8 0x0B)" by simp
  have ev: "formatArg arm32 UnsignedHexadecimalInteger (U8 0x0B) 0 = Inr ''0x0B''"
    by code_simp
  from hex_fixed_width[OF v, of 0]
  have "\<exists>out. formatArg arm32 UnsignedHexadecimalInteger (U8 0x0B) 0 = Inr out
              \<and> length out = 2 * sizeof arm32 (U8 0x0B) + 2"
    by (rule conjunct1[OF conjunct2])
  with v ev show ?thesis by blast
qed

text \<open>
  Claim C6: rendering "%d" with the value \<open>-555\<close> yields the bytes "-555", "%04u" with
  \<open>98765\<close> yields "98765" and "%06u" with \<open>7\<close> yields "000007" (each followed by the
  literal's terminator); in general the unsigned routine emits the natural digits,
  preceded by zeros up to the width only when the digits are fewer than the width, and
  the signed routine does the same on the absolute value, after a minus sign for a
  negative argument (the negation of the least value of a type not narrower than
  \<^verbatim>\<open>int\<close> is undefined).
\<close>

theorem decimal_render:
  "printf P puts (string_lit ''%d'') [I32 (- 555)] = Inr (5, puts @ [string_lit ''-555''])
   \<and> printf P puts (string_lit ''%04u'') [U32 98765] = Inr (6, puts @ [string_lit ''98765''])
   \<and> printf P puts (string_lit ''%06u'') [U32 7] = Inr (7, puts @ [string_lit ''000007''])
   \<and> formatArg_unsigned n w =
        (if length (decimal n) < unat w
         then replicate (unat w - length (decimal n)) (CHR ''0'') @ decimal n
         else decimal n)
   \<and> formatArg_signed P sz v w =
        (if v < 0 \<and> sizeof_int P \<le> sz \<and> - v = 2 ^ (8 * sz - 1) then Inl SignedOverflow
         else Inr ((if v < 0 then ''-'' else []) @
                   (if length (decimal (nat \<bar>v\<bar>)) < unat w
                    then replicate (unat w - length (decimal (nat \<bar>v\<bar>))) (CHR ''0'') @
                         decimal (nat \<bar>v\<bar>)
                    else decimal (nat \<bar>v\<bar>))))"
proof -
  have d: "formatArg_unsigned n w =
        (if length (decimal n) < unat w
         then replicate (unat w - length (decimal n)) (CHR ''0'') @ decimal n
         else decimal n)"
    by (simp add: formatArg_unsigned_decimal)
  have e: "formatArg_signed P sz v w =
        (if v < 0 \<and> sizeof_int P \<le> sz \<and> - v = 2 ^ (8 * sz - 1) then Inl SignedOverflow
         else Inr ((if v < 0 then ''-'' else []) @
                   (if length (decimal (nat \<bar>v\<bar>)) < unat w
                    then replicate (unat w - length (decimal (nat \<bar>v\<bar>))) (CHR ''0'') @
                         decimal (nat \<bar>v\<bar>)
                    else decimal (nat \<bar>v\<bar>))))"
    by (simp add: formatArg_signed_decimal)
  from printf_d_555 printf_04u_98765 printf_06u_7 d e show ?thesis by blast
qed

theorem decimal_render_witness:
  "printf arm32 [] (string_lit ''%d'') [I32 (- 555)] = Inr (5, [string_lit ''-555''])
   \<and> printf arm32 [] (string_lit ''%04u'') [U32 98765] = Inr (6, [string_lit ''98765''])
   \<and> printf arm32 [] (string_lit ''%06u'') [U32 7] = Inr (7, [string_lit ''000007''])"
  using decimal_render[of arm32 "[]" 0 0 0 0] by simp

text \<open>
  Claim C7: for every argument \<open>v\<close> of an unsigned integral type at least as wide as
  \<^verbatim>\<open>size_t\<close>, the \<^verbatim>\<open>%t\<close> routine emits the natural digits of \<open>v div 1000\<close>, the byte
  ".", and \<open>v mod 1000\<close> padded with zeros to exactly three digits; 1500 renders as
  "1.500" and 59 as "0.059".
\<close>

theorem time_render:
  "valid P Time a \<Longrightarrow>
     formatArg P Time a w =
       Inr (decimal (nat (int_value P a) div 1000) @ ''.'' @
            replicate (3 - length (decimal (nat (int_value P a) mod 1000))) (CHR ''0'') @
            decimal (nat (int_value P a) mod 1000))
     \<and> length (replicate (3 - length (decimal (nat (int_value P a) mod 1000))) (CHR ''0'') @
               decimal (nat (int_value P a) mod 1000)) = 3
     \<and> formatArg_time 1500 = ''1.500''
     \<and> formatArg_time 59 = ''0.059''"
proof -
  assume v: "valid P Time a"
  have t: "formatArg_time x =
      decimal (x div 1000) @ ''.'' @
      replicate (3 - length (decimal (x mod 1000))) (CHR ''0'') @ decimal (x mod 1000)" for x
    by (simp add: formatArg_time_def Let_def formatArg_unsigned_decimal)
  have "length (decimal (x mod 1000)) \<le> 3" for x :: nat
    by (rule length_decimal_le) simp_all
  then have l: "length (replicate (3 - length (decimal (x mod 1000))) (CHR ''0'') @
               decimal (x mod 1000)) = 3" for x :: nat
    by simp
  have a: "formatArg_time 1500 = ''1.500''"
    by (simp add: t decimal_1 decimal_500)
  from v have "formatArg P Time a w = Inr (formatArg_time (nat (int_value P a)))"
    by (simp add: formatArg_def)
  with t l a formatArg_time_59 show ?thesis by simp
qed

theorem time_render_witness:
  "valid arm32 Time (U32 1500) \<and> formatArg arm32 Time (U32 1500) 0 = Inr ''1.500''"
proof -
  have v: "valid arm32 Time (U32 1500)" by (simp add: arm32_def)
  have ev: "formatArg arm32 Time (U32 1500) 0 = Inr (formatArg_time 1500)"
    using v by (simp add: formatArg_def)
  from time_render[OF v, of 0] have "formatArg_time 1500 = ''1.500''" by blast
  with v ev show ?thesis by simp
qed

text \<open>
  Claim C8, as amended: for every \<^verbatim>\<open>%\<close> of the literal that is not itself the suffix
  byte of an earlier \<^verbatim>\<open>%\<close>, the table holds an entry at its position whose width is the
  decimal value of the digit run modulo \<open>2^32\<close>, whose encoded size is the number of
  bytes from the \<^verbatim>\<open>%\<close> through the suffix byte, and whose kind is the one the suffix
  byte names.
\<close>

theorem scanner_records_specifier:
  assumes "p < length text" and "text ! p = CHR ''%''"
    and "\<not> (\<exists>q<p. text ! q = CHR ''%'' \<and> suffix_index (string_lit text) q = p)"
  shows "\<exists>table e. SpecifierTable (string_lit text) (SpecifierQuantity (string_lit text)) = Some table
      \<and> e \<in> set table \<and> position e = p
      \<and> unat (width e) = dec_value (digit_run (string_lit text) p) mod 2 ^ 32
      \<and> size' e = length (digit_run (string_lit text) p) + 2
      \<and> specifier e = match_specifier (string_lit text ! suffix_index (string_lit text) p)"
proof -
  let ?s = "string_lit text"
  have p: "p < length ?s" "?s ! p = CHR ''%''"
    using assms(1,2) by (simp_all add: string_lit_def nth_append)
  from entries_cover[of 0 p ?s] p
  have "entry_at ?s p \<in> set (entries ?s 0)
     \<or> (\<exists>q. 0 \<le> q \<and> q < p \<and> ?s ! q = CHR ''%'' \<and> suffix_index ?s q = p
              \<and> entry_at ?s q \<in> set (entries ?s 0))"
    by simp
  moreover have "\<not> (\<exists>q. 0 \<le> q \<and> q < p \<and> ?s ! q = CHR ''%'' \<and> suffix_index ?s q = p
              \<and> entry_at ?s q \<in> set (entries ?s 0))"
    using assms(1,3) by (auto simp: string_lit_def nth_append)
  ultimately have "entry_at ?s p \<in> set (entries ?s 0)" by blast
  let ?t = "entries ?s 0
           @ replicate (SpecifierQuantity ?s - length (entries ?s 0)) SpecifierData_init"
  have "unat (of_nat (dec_value (digit_run ?s p)) :: 32 word)
      = dec_value (digit_run ?s p) mod 2 ^ 32"
    by (simp add: unat_of_nat)
  with \<open>entry_at ?s p \<in> set (entries ?s 0)\<close> SpecifierTable_entries[of "text"]
  have "SpecifierTable ?s (SpecifierQuantity ?s) = Some ?t
      \<and> entry_at ?s p \<in> set ?t \<and> position (entry_at ?s p) = p
      \<and> unat (width (entry_at ?s p)) = dec_value (digit_run ?s p) mod 2 ^ 32
      \<and> size' (entry_at ?s p) = length (digit_run ?s p) + 2
      \<and> specifier (entry_at ?s p) = match_specifier (?s ! suffix_index ?s p)"
    by (simp add: entry_at_def)
  then show ?thesis by blast
qed

theorem scanner_records_specifier_witness:
  "(1::nat) < length ''a%04u'' \<and> ''a%04u'' ! 1 = CHR ''%''
   \<and> \<not> (\<exists>q<1. ''a%04u'' ! q = CHR ''%'' \<and> suffix_index (string_lit ''a%04u'') q = 1)
   \<and> (\<exists>table e. SpecifierTable (string_lit ''a%04u'') (SpecifierQuantity (string_lit ''a%04u''))
          = Some table
        \<and> e \<in> set table \<and> position e = 1 \<and> unat (width e) = 4 \<and> size' e = 4
        \<and> specifier e = UnsignedDecimalInteger)
   \<and> (\<exists>table e. SpecifierTable (string_lit ''%d'') (SpecifierQuantity (string_lit ''%d''))
          = Some table
        \<and> e \<in> set table \<and> position e = 0 \<and> unat (width e) = 0 \<and> size' e = 2
        \<and> specifier e = SignedDecimalInteger)"
proof -
  have h1: "(1::nat) < length ''a%04u''" by simp
  have h2: "''a%04u'' ! 1 = CHR ''%''" by simp
  have h3: "\<not> (\<exists>q<1. ''a%04u'' ! q = CHR ''%'' \<and> suffix_index (string_lit ''a%04u'') q = 1)"
    by simp
  have r: "digit_run (string_lit ''a%04u'') 1 = ''04''" by code_simp
  have v: "dec_value ''04'' = 4" by (simp add: dec_value_def)
  have m: "match_specifier (string_lit ''a%04u'' ! suffix_index (string_lit ''a%04u'') 1)
      = UnsignedDecimalInteger"
    by code_simp
  have l: "length ''04'' + 2 = (4::nat)" by simp
  have w: "(4::nat) mod 2 ^ 32 = 4" by simp
  have g1: "(0::nat) < length ''%d''" by simp
  have g2: "''%d'' ! 0 = CHR ''%''" by simp
  have g3: "\<not> (\<exists>q<0. ''%d'' ! q = CHR ''%'' \<and> suffix_index (string_lit ''%d'') q = 0)"
    by simp
  have r': "digit_run (string_lit ''%d'') 0 = []" by code_simp
  have v': "dec_value [] = 0" by (simp add: dec_value_def)
  have m': "match_specifier (string_lit ''%d'' ! suffix_index (string_lit ''%d'') 0)
      = SignedDecimalInteger"
    by code_simp
  have l': "length ([] :: string) + 2 = (2::nat)" by simp
  have w': "(0::nat) mod 2 ^ 32 = 0" by simp
  from scanner_records_specifier[OF h1 h2 h3]
  have a: "\<exists>table e. SpecifierTable (string_lit ''a%04u'') (SpecifierQuantity (string_lit ''a%04u''))
          = Some table
        \<and> e \<in> set table \<and> position e = 1 \<and> unat (width e) = 4 \<and> size' e = 4
        \<and> specifier e = UnsignedDecimalInteger"
    unfolding r v m l w .
  from scanner_records_specifier[OF g1 g2 g3]
  have b: "\<exists>table e. SpecifierTable (string_lit ''%d'') (SpecifierQuantity (string_lit ''%d''))
          = Some table
        \<and> e \<in> set table \<and> position e = 0 \<and> unat (width e) = 0 \<and> size' e = 2
        \<and> specifier e = SignedDecimalInteger"
    unfolding r' v' m' l' w' .
  from h1 h2 h3 a b show ?thesis by blast
qed

text \<open>
  Claim C8 as stated fails where the digit run does not fit the \<^verbatim>\<open>unsigned\<close> width: for
  "%4294967296u" the recorded width is 0, as for "%u", not the value of the digit run.
\<close>

theorem width_wraps_counterexample:
  "SpecifierTable (string_lit ''%4294967296u'') (SpecifierQuantity (string_lit ''%4294967296u''))
     = Some [\<lparr>specifier = UnsignedDecimalInteger, width = 0, position = 0, size' = 12\<rparr>]
   \<and> dec_value ''4294967296'' = 4294967296
   \<and> SpecifierTable (string_lit ''%u'') (SpecifierQuantity (string_lit ''%u''))
     = Some [\<lparr>specifier = UnsignedDecimalInteger, width = 0, position = 0, size' = 2\<rparr>]"
proof -
  have "SpecifierTable (string_lit ''%4294967296u'') (SpecifierQuantity (string_lit ''%4294967296u''))
     = Some [\<lparr>specifier = UnsignedDecimalInteger, width = 0, position = 0, size' = 12\<rparr>]"
    by code_simp
  moreover have "dec_value ''4294967296'' = 4294967296"
    by (simp add: dec_value_def)
  moreover have "SpecifierTable (string_lit ''%u'') (SpecifierQuantity (string_lit ''%u''))
     = Some [\<lparr>specifier = UnsignedDecimalInteger, width = 0, position = 0, size' = 2\<rparr>]"
    by code_simp
  ultimately show ?thesis by simp
qed

text \<open>
  Claim C9: a call of the overload for data buffers whose \<^verbatim>\<open>data\<close> pointer is null
  returns 0 and leaves the sink untouched, whatever the literal, the buffer length and
  the other arguments are (a call exists only where the build accepts the literal and
  the arguments; the build is the same with any pointer).
\<close>

theorem null_data_returns_zero:
  assumes "data dataBuffer = None"
  shows "printf_dump P puts s dataBuffer args =
     (case rejected P s args of Some e \<Rightarrow> Inl e | None \<Rightarrow> Inr (0, puts))"
  using assms by (simp add: printf_dump_def split: option.splits)

theorem null_data_returns_zero_witness:
  "data \<lparr>data = None, length' = 7\<rparr> = None
   \<and> rejected arm32 (string_lit ''n %u:'') [U32 7] = None
   \<and> printf_dump arm32 [''x''] (string_lit ''n %u:'') \<lparr>data = None, length' = 7\<rparr> [U32 7]
      = Inr (0, [''x''])"
proof -
  have h: "data \<lparr>data = None, length' = 7\<rparr> = None" by simp
  have r: "rejected arm32 (string_lit ''n %u:'') [U32 7] = None" by code_simp
  from null_data_returns_zero[OF h, of arm32 "[''x'']" "string_lit ''n %u:''" "[U32 7]"] h r
  show ?thesis by simp
qed

text \<open>
  Claim C10: the count \<^verbatim>\<open>printf\<close> returns includes the literal's terminator. Without
  arguments it is \<^verbatim>\<open>sizeof(S::string)\<close> and the sink gets the literal's array; with
  arguments the buffer ends with the literal's bytes from some cursor on, its terminator
  being the last one, and the count covers all of them.
\<close>

theorem printf_counts_terminator:
  assumes "printf P puts (string_lit text) args = Inr (n, puts')"
  shows "(args = [] \<longrightarrow> n = length (string_lit text) \<and> puts' = puts @ [string_lit text])
     \<and> (args \<noteq> [] \<longrightarrow>
          (\<exists>front cursor. cursor \<le> length text
             \<and> puts' = puts @ [front @ drop cursor text @ [CHR 0x00]]
             \<and> n = length front + (length text - cursor) + 1))"
proof (cases "args = []")
  case True
  with assms show ?thesis by (simp add: printf_def)
next
  case False
  with assms obtain table len where b: "build P (string_lit text) args = Inr (table, len)"
    by (auto simp: printf_def split: sum.splits)
  from assms printf_eq_render_spec[OF b False, of puts] obtain buffer
    where r: "render_spec P (string_lit text) table args 0 = Inr buffer"
      and out: "n = length buffer" "puts' = puts @ [buffer]"
    by (auto split: sum.splits if_splits)
  from render_spec_tail[OF r build_table(5)[OF b]] obtain front cursor
    where c: "cursor \<le> length text" "buffer = front @ drop cursor text @ [CHR 0x00]" by blast
  from c out(1) have "n = length front + (length text - cursor) + 1" by simp
  with c out(2) have "\<exists>front cursor. cursor \<le> length text
             \<and> puts' = puts @ [front @ drop cursor text @ [CHR 0x00]]
             \<and> n = length front + (length text - cursor) + 1"
    by blast
  with False show ?thesis by simp
qed

theorem printf_counts_terminator_witness:
  "printf arm32 [] (string_lit ''a%db'') [I8 (- 5)] = Inr (5, [''a-5b'' @ [CHR 0x00]])
   \<and> printf arm32 [] (string_lit ''a%db'') [] = Inr (5, [''a%db'' @ [CHR 0x00]])
   \<and> (\<exists>front cursor. cursor \<le> length ''a%db''
         \<and> [] @ [''a-5b'' @ [CHR 0x00]] = [] @ [front @ drop cursor ''a%db'' @ [CHR 0x00]]
         \<and> (5::nat) = length front + (length ''a%db'' - cursor) + 1)"
proof -
  have a: "printf arm32 [] (string_lit ''a%db'') [I8 (- 5)] = Inr (5, [''a-5b'' @ [CHR 0x00]])"
    by code_simp
  have b: "printf arm32 [] (string_lit ''a%db'') [] = Inr (5, [''a%db'' @ [CHR 0x00]])"
    by code_simp
  from printf_counts_terminator[OF a] a b show ?thesis by simp
qed

end
